theory Spec2Isabelle
  imports Main
begin

section \<open>Data model of \<^verbatim>\<open>app.js\<close>\<close>

text \<open>
  A piece is the object \<^verbatim>\<open>{t, c, moved}\<close> that \<^verbatim>\<open>loadFEN\<close> creates: \<^verbatim>\<open>c\<close> is
  \<^verbatim>\<open>'w'\<close> or \<^verbatim>\<open>'b'\<close>, \<^verbatim>\<open>t\<close> is one of the six letters \<^verbatim>\<open>K Q R B N P\<close>.
  The fields are called \<open>piece_t\<close> and \<open>piece_c\<close> here.
\<close>

datatype color = White | Black

datatype ptype = King | Queen | Rook | Bishop | Knight | Pawn

record piece =
  piece_t :: ptype
  piece_c :: color
  moved :: bool

text \<open>
  The board is the array of eight rows of eight cells, each \<^verbatim>\<open>null\<close> or a piece.
  Coordinates are the source's numbers \<^verbatim>\<open>r\<close> and \<^verbatim>\<open>c\<close>; they are integers because the
  generator forms \<^verbatim>\<open>r + dir\<close> and \<^verbatim>\<open>c - 2\<close> before it tests the bounds.
\<close>

type_synonym board = "piece option list list"

datatype side = Kingside | Queenside

text \<open>
  A move descriptor is the object the generator pushes: \<^verbatim>\<open>{r, c, cap, double, ep, castle}\<close>.
  A field the source leaves out is \<^verbatim>\<open>undefined\<close>, which every reader of the field
  treats like \<^verbatim>\<open>false\<close>; \<^verbatim>\<open>castle\<close> is \<^verbatim>\<open>'k'\<close>, \<^verbatim>\<open>'q'\<close> or absent.
\<close>

record move =
  m_r :: int
  m_c :: int
  cap :: bool
  double :: bool
  ep :: bool
  castle :: "side option"

text \<open>The argument of \<^verbatim>\<open>applyMove\<close>: \<^verbatim>\<open>{from: {r, c}, to: {r, c}, meta}\<close>.\<close>

record request =
  mfrom :: "int \<times> int"
  mto :: "int \<times> int"
  meta :: move

text \<open>\<^verbatim>\<open>lastDouble\<close> is \<^verbatim>\<open>null\<close> or \<^verbatim>\<open>{r, c, dir}\<close>.\<close>

record target =
  ld_r :: int
  ld_c :: int
  ld_dir :: int

text \<open>
  The object \<^verbatim>\<open>snapshot()\<close> returns. The capture bins hold the icons of \<^verbatim>\<open>UNI\<close>, one
  character each, kept here as their code points. \<^verbatim>\<open>movesHTML\<close> is the content of the
  move list element, kept as the texts of its \<^verbatim>\<open>li\<close> children.
\<close>

record snapshot =
  s_board :: board
  s_turn :: color
  s_selected :: "(int \<times> int) option"
  s_legal :: "move list"
  s_lastDouble :: "target option"
  s_byWhite :: "nat list"
  s_byBlack :: "nat list"
  s_movesHTML :: "string list"

text \<open>
  The module's mutable globals, with the one part of the page that the rules read back
  (\<^verbatim>\<open>movesEl\<close>), as one state value that every operation takes and returns.
\<close>

record session =
  board :: board
  turn :: color
  selected :: "(int \<times> int) option"
  legal :: "move list"
  lastDouble :: "target option"
  gameOver :: bool
  byWhite :: "nat list"
  byBlack :: "nat list"
  history :: "snapshot list"
  movesEl :: "string list"

text \<open>
  What a call can end in besides a value. \<open>TypeError\<close> is the exception JavaScript
  throws on reading a property of \<^verbatim>\<open>null\<close> or \<^verbatim>\<open>undefined\<close>. \<open>Unmodelled\<close> marks the
  places where the source would go on with data outside the types above: a write beyond
  the eight columns of a row (the array grows), or the object \<^verbatim>\<open>{...null, moved:true}\<close>,
  a piece with neither type nor colour.
\<close>

datatype fault = TypeError | Unmodelled

section \<open>Utilities\<close>

definition opposite :: "color \<Rightarrow> color" where
  "opposite clr = (if clr = White then Black else White)"

definition inBounds :: "int \<Rightarrow> int \<Rightarrow> bool" where
  "inBounds r c \<longleftrightarrow> r \<ge> 0 \<and> r < 8 \<and> c \<ge> 0 \<and> c < 8"

text \<open>\<^verbatim>\<open>board[r][c]\<close>, which the source reads only after a bounds test.\<close>

definition cell :: "board \<Rightarrow> int \<Rightarrow> int \<Rightarrow> piece option" where
  "cell b r c = b ! nat r ! nat c"

definition at :: "board \<Rightarrow> int \<Rightarrow> int \<Rightarrow> piece option" where
  "at b r c = (if inBounds r c then cell b r c else None)"

definition empty :: "board \<Rightarrow> int \<Rightarrow> int \<Rightarrow> bool" where
  "empty b r c = (if inBounds r c then cell b r c = None else False)"

definition ally :: "board \<Rightarrow> int \<Rightarrow> int \<Rightarrow> color \<Rightarrow> bool" where
  "ally b r c clr =
     (if inBounds r c then (case cell b r c of None \<Rightarrow> False | Some p \<Rightarrow> piece_c p = clr)
      else False)"

definition enemy :: "board \<Rightarrow> int \<Rightarrow> int \<Rightarrow> color \<Rightarrow> bool" where
  "enemy b r c clr =
     (if inBounds r c then (case cell b r c of None \<Rightarrow> False | Some p \<Rightarrow> piece_c p \<noteq> clr)
      else False)"

text \<open>The index ranges of the source's \<^verbatim>\<open>for\<close> loops, and the squares in scan order.\<close>

definition idx8 :: "int list" where
  "idx8 = [0, 1, 2, 3, 4, 5, 6, 7]"

definition squares :: "(int \<times> int) list" where
  "squares = concat (map (\<lambda>r. map (\<lambda>c. (r, c)) idx8) idx8)"

definition quiet :: "int \<Rightarrow> int \<Rightarrow> move" where
  "quiet r c = \<lparr>m_r = r, m_c = c, cap = False, double = False, ep = False, castle = None\<rparr>"

section \<open>Pseudo-legal moves, attack and check detection\<close>

text \<open>
  One direction of \<^verbatim>\<open>rays\<close>: the \<^verbatim>\<open>while (inBounds(rr, cc))\<close> loop, entered at the first
  square after the piece. The source calls it with the eight unit directions only; the
  test for a zero direction stands for that, and makes the function total.
\<close>

function rayWalk :: "board \<Rightarrow> color \<Rightarrow> int \<Rightarrow> int \<Rightarrow> int \<Rightarrow> int \<Rightarrow> move list" where
  "rayWalk b clr rr cc dr dc =
     (if inBounds rr cc \<and> (dr \<noteq> 0 \<or> dc \<noteq> 0) then
        (case cell b rr cc of
           Some q \<Rightarrow> (if piece_c q \<noteq> clr then [(quiet rr cc)\<lparr>cap := True\<rparr>] else [])
         | None \<Rightarrow> quiet rr cc # rayWalk b clr (rr + dr) (cc + dc) dr dc)
      else [])"
  by pat_completeness auto
termination
  by (relation "measure (\<lambda>(b, clr, rr, cc, dr, dc).
        if dr > 0 then nat (8 - rr) else if dr < 0 then nat (rr + 1)
        else if dc > 0 then nat (8 - cc) else nat (cc + 1))")
     (auto simp: inBounds_def)

declare rayWalk.simps [simp del]

definition rays :: "board \<Rightarrow> color \<Rightarrow> int \<Rightarrow> int \<Rightarrow> (int \<times> int) list \<Rightarrow> move list" where
  "rays b clr r c dirs = concat (map (\<lambda>(dr, dc). rayWalk b clr (r + dr) (c + dc) dr dc) dirs)"

definition bishopDirs :: "(int \<times> int) list" where
  "bishopDirs = [(1, 1), (1, -1), (-1, 1), (-1, -1)]"

definition rookDirs :: "(int \<times> int) list" where
  "rookDirs = [(1, 0), (-1, 0), (0, 1), (0, -1)]"

definition knightDeltas :: "(int \<times> int) list" where
  "knightDeltas = [(-2, -1), (-2, 1), (-1, -2), (-1, 2), (1, -2), (1, 2), (2, -1), (2, 1)]"

text \<open>The pairs \<^verbatim>\<open>(dr, dc)\<close> of the king's double loop, \<^verbatim>\<open>(0, 0)\<close> skipped.\<close>

definition kingDeltas :: "(int \<times> int) list" where
  "kingDeltas = [(-1, -1), (-1, 0), (-1, 1), (0, -1), (0, 1), (1, -1), (1, 0), (1, 1)]"

text \<open>The knight's and the king's loop body: \<^verbatim>\<open>cap\<close> is \<^verbatim>\<open>enemy(rr, cc, color)\<close>.\<close>

definition steps :: "board \<Rightarrow> color \<Rightarrow> int \<Rightarrow> int \<Rightarrow> (int \<times> int) list \<Rightarrow> move list" where
  "steps b clr r c deltas =
     concat (map (\<lambda>(dr, dc).
       if inBounds (r + dr) (c + dc) then
         (if ally b (r + dr) (c + dc) clr then []
          else [(quiet (r + dr) (c + dc))\<lparr>cap := enemy b (r + dr) (c + dc) clr\<rparr>])
       else []) deltas)"

text \<open>
  The branch \<^verbatim>\<open>type === 'P'\<close> of \<^verbatim>\<open>genPseudo\<close>, in its three blocks: the forward
  pushes (skipped when \<^verbatim>\<open>forAttack\<close> is set), the diagonal captures, the en-passant
  capture.
\<close>

definition pawnDir :: "color \<Rightarrow> int" where
  "pawnDir clr = (if clr = White then -1 else 1)"

definition pawnStart :: "color \<Rightarrow> int" where
  "pawnStart clr = (if clr = White then 6 else 1)"

definition pawnPushes :: "board \<Rightarrow> color \<Rightarrow> int \<Rightarrow> int \<Rightarrow> bool \<Rightarrow> move list" where
  "pawnPushes b clr r c forAttack =
     (if forAttack then []
      else if empty b (r + pawnDir clr) c then
        quiet (r + pawnDir clr) c #
          (if r = pawnStart clr then
             (if empty b (r + 2 * pawnDir clr) c
              then [(quiet (r + 2 * pawnDir clr) c)\<lparr>double := True\<rparr>] else [])
           else [])
      else [])"

definition pawnCaptures :: "board \<Rightarrow> color \<Rightarrow> int \<Rightarrow> int \<Rightarrow> move list" where
  "pawnCaptures b clr r c =
     concat (map (\<lambda>dc. if enemy b (r + pawnDir clr) (c + dc) clr
                        then [(quiet (r + pawnDir clr) (c + dc))\<lparr>cap := True\<rparr>] else [])
                 [-1, 1])"

definition pawnEnPassant :: "target option \<Rightarrow> color \<Rightarrow> int \<Rightarrow> int \<Rightarrow> move list" where
  "pawnEnPassant ld clr r c =
     (case ld of
        None \<Rightarrow> []
      | Some l \<Rightarrow>
          if ld_r l = r then
            (if \<bar>ld_c l - c\<bar> = 1 then
               (if r = (if clr = White then 3 else 4)
                then [(quiet (r + pawnDir clr) (ld_c l))\<lparr>cap := True, ep := True\<rparr>] else [])
             else [])
          else [])"

definition pawnMoves ::
  "board \<Rightarrow> target option \<Rightarrow> color \<Rightarrow> int \<Rightarrow> int \<Rightarrow> bool \<Rightarrow> move list" where
  "pawnMoves b ld clr r c forAttack =
     pawnPushes b clr r c forAttack @ pawnCaptures b clr r c @ pawnEnPassant ld clr r c"

text \<open>
  Everything \<^verbatim>\<open>genPseudo\<close> pushes before the castling test, by piece type.
\<close>

definition pieceMoves :: "session \<Rightarrow> piece \<Rightarrow> int \<Rightarrow> int \<Rightarrow> bool \<Rightarrow> move list" where
  "pieceMoves s p r c forAttack =
     (case piece_t p of
        Pawn \<Rightarrow> pawnMoves (board s) (lastDouble s) (piece_c p) r c forAttack
      | Knight \<Rightarrow> steps (board s) (piece_c p) r c knightDeltas
      | Bishop \<Rightarrow> rays (board s) (piece_c p) r c bishopDirs
      | Rook \<Rightarrow> rays (board s) (piece_c p) r c rookDirs
      | Queen \<Rightarrow> rays (board s) (piece_c p) r c (bishopDirs @ rookDirs)
      | King \<Rightarrow> steps (board s) (piece_c p) r c kingDeltas)"

definition kingPos :: "session \<Rightarrow> color \<Rightarrow> (int \<times> int) option" where
  "kingPos s clr =
     find (\<lambda>(r, c). case cell (board s) r c of
                      None \<Rightarrow> False
                    | Some p \<Rightarrow> piece_t p = King \<and> piece_c p = clr) squares"

definition homeRow :: "color \<Rightarrow> int" where
  "homeRow clr = (if clr = White then 7 else 0)"

definition rookCol :: "side \<Rightarrow> int" where
  "rookCol sd = (if sd = Kingside then 7 else 0)"

definition stepOf :: "side \<Rightarrow> int" where
  "stepOf sd = (if sd = Kingside then 1 else -1)"

text \<open>
  The columns of the first loop of \<^verbatim>\<open>canCastle\<close> (strictly between king and rook) and of
  its second loop (\<^verbatim>\<open>c = kC; c !== kC + 2*step; c += step\<close>).
\<close>

definition betweenCols :: "side \<Rightarrow> int list" where
  "betweenCols sd = (if sd = Kingside then [5, 6] else [3, 2, 1])"

definition pathCols :: "side \<Rightarrow> int list" where
  "pathCols sd = [4, 4 + stepOf sd]"

text \<open>
  \<^verbatim>\<open>genPseudo\<close> (without castling) calls nothing; with castling it calls \<^verbatim>\<open>inCheck\<close> and
  \<^verbatim>\<open>canCastle\<close>, which call \<^verbatim>\<open>attacksSquare\<close>, which calls \<^verbatim>\<open>genPseudo\<close> with
  \<^verbatim>\<open>forAttack = true\<close>. The recursion ends because that flag switches the castling
  block off.
\<close>

function genPseudo :: "session \<Rightarrow> int \<Rightarrow> int \<Rightarrow> bool \<Rightarrow> move list"
  and attacksSquare :: "session \<Rightarrow> color \<Rightarrow> int \<Rightarrow> int \<Rightarrow> bool"
  and inCheck :: "session \<Rightarrow> color \<Rightarrow> bool"
  and canCastle :: "session \<Rightarrow> color \<Rightarrow> side \<Rightarrow> bool"
where
  "genPseudo s r c forAttack =
     (case at (board s) r c of
        None \<Rightarrow> []
      | Some p \<Rightarrow>
          pieceMoves s p r c forAttack @
          (if piece_t p = King then
             (if forAttack then []
              else if moved p then []
              else if inCheck s (piece_c p) then []
              else (if canCastle s (piece_c p) Kingside
                    then [(quiet r (c + 2))\<lparr>castle := Some Kingside\<rparr>] else [])
                 @ (if canCastle s (piece_c p) Queenside
                    then [(quiet r (c - 2))\<lparr>castle := Some Queenside\<rparr>] else []))
           else []))"
| "attacksSquare s clr r c =
     list_ex (\<lambda>(rr, cc).
        case cell (board s) rr cc of
          None \<Rightarrow> False
        | Some p \<Rightarrow>
            if piece_c p \<noteq> clr then False
            else list_ex (\<lambda>x. m_r x = r \<and> m_c x = c) (genPseudo s rr cc True)) squares"
| "inCheck s clr =
     (case kingPos s clr of
        None \<Rightarrow> False
      | Some (kr, kc) \<Rightarrow> attacksSquare s (opposite clr) kr kc)"
| "canCastle s clr sd =
     (case at (board s) (homeRow clr) (rookCol sd) of
        None \<Rightarrow> False
      | Some rook \<Rightarrow>
         (case at (board s) (homeRow clr) 4 of
            None \<Rightarrow> False
          | Some king \<Rightarrow>
              if piece_t king \<noteq> King \<or> piece_t rook \<noteq> Rook \<or> moved king \<or> moved rook
              then False
              else if list_ex (\<lambda>c. \<not> empty (board s) (homeRow clr) c) (betweenCols sd)
              then False
              else \<not> list_ex (\<lambda>c. attacksSquare s (opposite clr) (homeRow clr) c)
                          (pathCols sd)))"
  by pat_completeness auto
termination
  by (relation "measure (\<lambda>x. case x of
        Inl (Inl (s, r, c, fa)) \<Rightarrow> if fa then 0 else 3
      | Inl (Inr (s, clr, r, c)) \<Rightarrow> 1
      | Inr (Inl (s, clr)) \<Rightarrow> 2
      | Inr (Inr (s, clr, sd)) \<Rightarrow> 2)")
     auto

declare genPseudo.simps [simp del] attacksSquare.simps [simp del]
  inCheck.simps [simp del] canCastle.simps [simp del]

section \<open>Snapshots\<close>

text \<open>
  \<^verbatim>\<open>cloneBoard\<close> copies every row and every piece object. Values have no identity here, so
  the copy is written as the map it is and equals its argument.
\<close>

definition cloneBoard :: "board \<Rightarrow> board" where
  "cloneBoard b = map (map (\<lambda>p. case p of None \<Rightarrow> None | Some q \<Rightarrow> Some q)) b"

definition snapshot :: "session \<Rightarrow> snapshot" where
  "snapshot s =
     \<lparr>s_board = cloneBoard (board s), s_turn = turn s, s_selected = selected s,
      s_legal = legal s, s_lastDouble = lastDouble s,
      s_byWhite = byWhite s, s_byBlack = byBlack s, s_movesHTML = movesEl s\<rparr>"

definition restoreSnapshot :: "session \<Rightarrow> snapshot \<Rightarrow> session" where
  "restoreSnapshot s sn =
     s\<lparr>board := cloneBoard (s_board sn), turn := s_turn sn, selected := s_selected sn,
       legal := s_legal sn, lastDouble := s_lastDouble sn,
       byWhite := s_byWhite sn, byBlack := s_byBlack sn, movesEl := s_movesHTML sn\<rparr>"

section \<open>Applying a move\<close>

text \<open>The code points of the icons in \<^verbatim>\<open>UNI\<close> (U+2654 to U+265F).\<close>

definition UNI :: "color \<Rightarrow> ptype \<Rightarrow> nat" where
  "UNI clr ty =
     (if clr = White then 9812 else 9818) +
     (case ty of King \<Rightarrow> 0 | Queen \<Rightarrow> 1 | Rook \<Rightarrow> 2 | Bishop \<Rightarrow> 3 | Knight \<Rightarrow> 4 | Pawn \<Rightarrow> 5)"

text \<open>
  The assignment \<^verbatim>\<open>board[r][c] = v\<close>. With \<^verbatim>\<open>r\<close> outside the eight rows \<^verbatim>\<open>board[r]\<close> is
  \<^verbatim>\<open>undefined\<close> and the assignment throws; with \<^verbatim>\<open>c\<close> outside the eight columns the
  row would grow.
\<close>

definition setCell :: "board \<Rightarrow> int \<Rightarrow> int \<Rightarrow> piece option \<Rightarrow> fault + board" where
  "setCell b r c v =
     (if r < 0 \<or> r \<ge> 8 then Inl TypeError
      else if c < 0 \<or> c \<ge> 8 then Inl Unmodelled
      else Inr (b[nat r := (b ! nat r)[nat c := v]]))"

definition pushCaptured :: "session \<Rightarrow> color \<Rightarrow> nat \<Rightarrow> session" where
  "pushCaptured s mover icon =
     (if mover = White then s\<lparr>byWhite := byWhite s @ [icon]\<rparr>
      else s\<lparr>byBlack := byBlack s @ [icon]\<rparr>)"

text \<open>Decimal digits of a number, for the move number and the rank of \<^verbatim>\<open>algebra\<close>.\<close>

fun showNat :: "nat \<Rightarrow> string" where
  "showNat n =
     (if n < 10 then [''0123456789'' ! n]
      else showNat (n div 10) @ [''0123456789'' ! (n mod 10)])"

declare showNat.simps [simp del]

definition showInt :: "int \<Rightarrow> string" where
  "showInt i = (if i < 0 then CHR ''-'' # showNat (nat (- i)) else showNat (nat i))"

text \<open>
  \<^verbatim>\<open>algebra(r, c)\<close> is \<^verbatim>\<open>String.fromCharCode(97 + c) + (8 - r)\<close>. It is called on the
  destination of a move that has been written to the board, where \<^verbatim>\<open>0 <= c < 8\<close>.
\<close>

definition algebra :: "int \<Rightarrow> int \<Rightarrow> string" where
  "algebra r c = char_of (97 + c) # showInt (8 - r)"

definition letter :: "ptype \<Rightarrow> string" where
  "letter ty =
     (case ty of King \<Rightarrow> ''K'' | Queen \<Rightarrow> ''Q'' | Rook \<Rightarrow> ''R''
               | Bishop \<Rightarrow> ''B'' | Knight \<Rightarrow> ''N'' | Pawn \<Rightarrow> ''P'')"

definition moveText :: "piece \<Rightarrow> piece option \<Rightarrow> int \<times> int \<Rightarrow> move \<Rightarrow> string" where
  "moveText p capturedPiece to mt =
     (case castle mt of
        Some Kingside \<Rightarrow> ''O-O''
      | Some Queenside \<Rightarrow> ''O-O-O''
      | None \<Rightarrow>
          (if piece_t p = Pawn then [] else letter (piece_t p))
          @ (if capturedPiece \<noteq> None \<or> ep mt then ''x'' else [])
          @ algebra (fst to) (snd to)
          @ (if piece_t p = Pawn \<and> (fst to = 0 \<or> fst to = 7) then ''=Q'' else []))"

text \<open>
  \<^verbatim>\<open>logMove\<close>: on White's turn a new list item; on Black's turn the text is appended to
  the last item, and \<^verbatim>\<open>movesEl.lastElementChild\<close> is \<^verbatim>\<open>null\<close> when the list is empty.
\<close>

definition logMove ::
  "session \<Rightarrow> piece \<Rightarrow> piece option \<Rightarrow> int \<times> int \<Rightarrow> move \<Rightarrow> fault + session" where
  "logMove s p capturedPiece to mt =
     (if turn s = White then
        Inr (s\<lparr>movesEl := movesEl s @
               [showNat (length (movesEl s) + 1) @ ''. '' @ moveText p capturedPiece to mt]\<rparr>)
      else if movesEl s = [] then Inl TypeError
      else Inr (s\<lparr>movesEl := butlast (movesEl s) @
               [last (movesEl s) @ ''   '' @ moveText p capturedPiece to mt]\<rparr>))"

text \<open>
  The castling block of \<^verbatim>\<open>applyMove\<close>: the rook object of the corner is copied with
  \<^verbatim>\<open>moved: true\<close> to the square beside the king. With no piece on the corner the copy
  would be \<^verbatim>\<open>{moved: true}\<close>.
\<close>

definition castleRook :: "board \<Rightarrow> int \<Rightarrow> side option \<Rightarrow> fault + board" where
  "castleRook b row cs =
     (case cs of
        None \<Rightarrow> Inr b
      | Some sd \<Rightarrow>
          (case cell b row (rookCol sd) of
             None \<Rightarrow> Inl Unmodelled
           | Some rk \<Rightarrow>
               (case setCell b row (if sd = Kingside then 5 else 3) (Some (rk\<lparr>moved := True\<rparr>)) of
                  Inl e \<Rightarrow> Inl e
                | Inr b1 \<Rightarrow> setCell b1 row (rookCol sd) None)))"

text \<open>
  The promotion test reads the destination back from the board:
  \<^verbatim>\<open>board[to.r][to.c].t === 'P'\<close> throws when that cell is \<^verbatim>\<open>null\<close>.
\<close>

definition promote :: "board \<Rightarrow> int \<Rightarrow> int \<Rightarrow> fault + board" where
  "promote b tr tc =
     (case cell b tr tc of
        None \<Rightarrow> Inl TypeError
      | Some q \<Rightarrow>
          if piece_t q = Pawn \<and> (tr = 0 \<or> tr = 7)
          then setCell b tr tc (Some (q\<lparr>piece_t := Queen\<rparr>))
          else Inr b)"

text \<open>
  The writes of \<^verbatim>\<open>applyMove\<close> to the board, in the order of the source: the pawn taken
  en passant, the destination, the origin, the rook of a castling move, the promotion.
\<close>

definition moveOnBoard ::
  "board \<Rightarrow> piece \<Rightarrow> int \<Rightarrow> int \<Rightarrow> int \<Rightarrow> int \<Rightarrow> move \<Rightarrow> fault + board" where
  "moveOnBoard b p fr fc tr tc mt =
     (case (if ep mt then setCell b fr tc None else Inr b) of
        Inl e \<Rightarrow> Inl e
      | Inr b1 \<Rightarrow>
         (case setCell b1 tr tc (Some (p\<lparr>moved := True\<rparr>)) of
            Inl e \<Rightarrow> Inl e
          | Inr b2 \<Rightarrow>
             (case setCell b2 fr fc None of
                Inl e \<Rightarrow> Inl e
              | Inr b3 \<Rightarrow>
                 (case castleRook b3 tr (castle mt) of
                    Inl e \<Rightarrow> Inl e
                  | Inr b4 \<Rightarrow> promote b4 tr tc))))"

text \<open>
  The capture bins, filled before the board changes and only when \<^verbatim>\<open>simulate\<close> is false:
  the icon of the piece on the destination, then on an en-passant move the icon of the
  piece beside the pawn.
\<close>

definition recordCaptures :: "session \<Rightarrow> piece \<Rightarrow> request \<Rightarrow> session" where
  "recordCaptures s p m =
     (let s1 = (case at (board s) (fst (mto m)) (snd (mto m)) of
                  None \<Rightarrow> s
                | Some tp \<Rightarrow> pushCaptured s (piece_c p) (UNI (piece_c tp) (piece_t tp)))
      in if ep (meta m) then
           (case at (board s) (fst (mfrom m)) (snd (mto m)) of
              None \<Rightarrow> s1
            | Some epPawn \<Rightarrow> pushCaptured s1 (piece_c p) (UNI (piece_c epPawn) (piece_t epPawn)))
         else s1)"

text \<open>
  The value \<^verbatim>\<open>applyMove\<close> leaves in \<^verbatim>\<open>lastDouble\<close>: the destination and the pawn's
  direction when the piece is a pawn and the move is marked \<^verbatim>\<open>double\<close>, \<^verbatim>\<open>null\<close>
  otherwise.
\<close>

definition newTarget :: "piece \<Rightarrow> request \<Rightarrow> target option" where
  "newTarget p m =
     (if piece_t p = Pawn \<and> double (meta m)
      then Some \<lparr>ld_r = fst (mto m), ld_c = snd (mto m),
                 ld_dir = (if piece_c p = White then -1 else 1)\<rparr>
      else None)"

text \<open>
  \<^verbatim>\<open>applyMove(m, simulate)\<close>. With no piece on the origin every path through the source
  ends in a \<^verbatim>\<open>TypeError\<close>, at \<^verbatim>\<open>piece.c\<close> or at the latest at \<^verbatim>\<open>piece.t\<close>.
\<close>

definition applyMove :: "session \<Rightarrow> request \<Rightarrow> bool \<Rightarrow> fault + session" where
  "applyMove s m simulate =
     (case at (board s) (fst (mfrom m)) (snd (mfrom m)) of
        None \<Rightarrow> Inl TypeError
      | Some p \<Rightarrow>
         (case moveOnBoard (board s) p (fst (mfrom m)) (snd (mfrom m))
                 (fst (mto m)) (snd (mto m)) (meta m) of
            Inl e \<Rightarrow> Inl e
          | Inr b \<Rightarrow>
             (let s1 = (if simulate then s else recordCaptures s p m);
                  s2 = s1\<lparr>board := b, lastDouble := newTarget p m\<rparr>
              in if simulate then Inr s2
                 else logMove s2 p (at (board s) (fst (mto m)) (snd (mto m))) (mto m) (meta m))))"

section \<open>Legal moves\<close>

text \<open>
  The loop of \<^verbatim>\<open>genLegal\<close> over the pseudo-legal moves: snapshot, simulated move, check
  test, restore. The session is threaded through, as the source mutates and restores
  the globals.
\<close>

fun legalLoop ::
  "session \<Rightarrow> int \<Rightarrow> int \<Rightarrow> color \<Rightarrow> move list \<Rightarrow> fault + (move list \<times> session)" where
  "legalLoop s r c clr [] = Inr ([], s)"
| "legalLoop s r c clr (m # ms) =
     (case applyMove s \<lparr>mfrom = (r, c), mto = (m_r m, m_c m), meta = m\<rparr> True of
        Inl e \<Rightarrow> Inl e
      | Inr s1 \<Rightarrow>
         (case legalLoop (restoreSnapshot s1 (snapshot s)) r c clr ms of
            Inl e \<Rightarrow> Inl e
          | Inr (rest, s3) \<Rightarrow> Inr (if inCheck s1 clr then rest else m # rest, s3)))"

definition genLegal :: "session \<Rightarrow> int \<Rightarrow> int \<Rightarrow> fault + (move list \<times> session)" where
  "genLegal s r c =
     (case at (board s) r c of
        None \<Rightarrow> Inr ([], s)
      | Some p \<Rightarrow> legalLoop s r c (piece_c p) (genPseudo s r c False))"

section \<open>Game status\<close>

datatype status = Ongoing | Checkmate | Stalemate

fun anyLoop :: "session \<Rightarrow> color \<Rightarrow> (int \<times> int) list \<Rightarrow> fault + (bool \<times> session)" where
  "anyLoop s clr [] = Inr (False, s)"
| "anyLoop s clr (sq # rest) =
     (case at (board s) (fst sq) (snd sq) of
        None \<Rightarrow> anyLoop s clr rest
      | Some p \<Rightarrow>
          if piece_c p \<noteq> clr then anyLoop s clr rest
          else (case genLegal s (fst sq) (snd sq) of
                  Inl e \<Rightarrow> Inl e
                | Inr (leg, s1) \<Rightarrow> if leg \<noteq> [] then Inr (True, s1) else anyLoop s1 clr rest))"

definition anyLegalMove :: "session \<Rightarrow> color \<Rightarrow> fault + (bool \<times> session)" where
  "anyLegalMove s clr = anyLoop s clr squares"

definition gameStatus :: "session \<Rightarrow> color \<Rightarrow> fault + (status \<times> session)" where
  "gameStatus s colorToMove =
     (case anyLegalMove s colorToMove of
        Inl e \<Rightarrow> Inl e
      | Inr (hasMove, s1) \<Rightarrow>
          Inr (if hasMove then Ongoing
               else if inCheck s1 colorToMove then Checkmate else Stalemate, s1))"

section \<open>Rendering, clicks and undo\<close>

text \<open>
  Of \<^verbatim>\<open>render\<close> the part that changes the globals: \<^verbatim>\<open>gameOver\<close> is set from
  \<^verbatim>\<open>gameStatus(turn)\<close>. The rest of it writes to the page.
\<close>

definition render :: "session \<Rightarrow> fault + session" where
  "render s =
     (case gameStatus s (turn s) of
        Inl e \<Rightarrow> Inl e
      | Inr (st, s1) \<Rightarrow> Inr (s1\<lparr>gameOver := (st \<noteq> Ongoing)\<rparr>))"

text \<open>\<^verbatim>\<open>selected = {r, c}; legal = genLegal(r, c); render();\<close>\<close>

definition selectSquare :: "session \<Rightarrow> int \<Rightarrow> int \<Rightarrow> fault + session" where
  "selectSquare s r c =
     (case genLegal (s\<lparr>selected := Some (r, c)\<rparr>) r c of
        Inl e \<Rightarrow> Inl e
      | Inr (ms, s1) \<Rightarrow> render (s1\<lparr>legal := ms\<rparr>))"

text \<open>
  \<^verbatim>\<open>onSquareClick\<close> for the square \<^verbatim>\<open>(r, c)\<close> of the clicked button. \<^verbatim>\<open>history.push\<close>
  appends, so the newest snapshot is the last element.
\<close>

definition onSquareClick :: "session \<Rightarrow> int \<Rightarrow> int \<Rightarrow> fault + session" where
  "onSquareClick s r c =
     (if gameOver s then Inr s
      else
        (let own = (case at (board s) r c of None \<Rightarrow> False | Some p \<Rightarrow> piece_c p = turn s)
         in case selected s of
              None \<Rightarrow> if own then selectSquare s r c else Inr s
            | Some sel \<Rightarrow>
                if own then selectSquare s r c
                else
                  (case find (\<lambda>m. m_r m = r \<and> m_c m = c) (legal s) of
                     None \<Rightarrow> render (s\<lparr>selected := None, legal := []\<rparr>)
                   | Some mv \<Rightarrow>
                       (case applyMove (s\<lparr>history := history s @ [snapshot s]\<rparr>)
                               \<lparr>mfrom = sel, mto = (r, c), meta = mv\<rparr> False of
                          Inl e \<Rightarrow> Inl e
                        | Inr s1 \<Rightarrow>
                            render (s1\<lparr>turn := opposite (turn s1),
                                       selected := None, legal := []\<rparr>)))))"

definition undo :: "session \<Rightarrow> fault + session" where
  "undo s =
     (if history s = [] then Inr s
      else render ((restoreSnapshot (s\<lparr>history := butlast (history s)\<rparr>) (last (history s)))
                     \<lparr>gameOver := False, selected := None, legal := []\<rparr>))"

section \<open>Loading a position\<close>

text \<open>\<^verbatim>\<open>str.split(d)\<close> for a separator of one character.\<close>

fun splitOn :: "char \<Rightarrow> string \<Rightarrow> string list" where
  "splitOn d [] = [[]]"
| "splitOn d (x # xs) =
     (if x = d then [] # splitOn d xs
      else (case splitOn d xs of [] \<Rightarrow> [[x]] | w # ws \<Rightarrow> (x # w) # ws))"

definition digitOf :: "char \<Rightarrow> int option" where
  "digitOf ch =
     (if ch = CHR ''0'' then Some 0 else if ch = CHR ''1'' then Some 1
      else if ch = CHR ''2'' then Some 2 else if ch = CHR ''3'' then Some 3
      else if ch = CHR ''4'' then Some 4 else if ch = CHR ''5'' then Some 5
      else if ch = CHR ''6'' then Some 6 else if ch = CHR ''7'' then Some 7
      else if ch = CHR ''8'' then Some 8 else if ch = CHR ''9'' then Some 9
      else None)"

text \<open>
  The piece \<^verbatim>\<open>{t: ch.toUpperCase(), c: ch === ch.toUpperCase() ? 'w' : 'b', moved: false}\<close>
  for the twelve piece letters. Any other character would give a piece whose type is
  none of the six.
\<close>

definition pieceOfChar :: "char \<Rightarrow> piece option" where
  "pieceOfChar ch =
     map_option (\<lambda>(ty, clr). \<lparr>piece_t = ty, piece_c = clr, moved = False\<rparr>)
       (map_of
          [(CHR ''K'', (King, White)), (CHR ''Q'', (Queen, White)), (CHR ''R'', (Rook, White)),
           (CHR ''B'', (Bishop, White)), (CHR ''N'', (Knight, White)), (CHR ''P'', (Pawn, White)),
           (CHR ''k'', (King, Black)), (CHR ''q'', (Queen, Black)), (CHR ''r'', (Rook, Black)),
           (CHR ''b'', (Bishop, Black)), (CHR ''n'', (Knight, Black)), (CHR ''p'', (Pawn, Black))]
          ch)"

fun loadRow :: "board \<Rightarrow> int \<Rightarrow> int \<Rightarrow> string \<Rightarrow> fault + board" where
  "loadRow b r file [] = Inr b"
| "loadRow b r file (ch # rest) =
     (case digitOf ch of
        Some d \<Rightarrow> loadRow b r (file + d) rest
      | None \<Rightarrow>
          (case pieceOfChar ch of
             None \<Rightarrow> Inl Unmodelled
           | Some p \<Rightarrow>
               (case setCell b r file (Some p) of
                  Inl e \<Rightarrow> Inl e
                | Inr b1 \<Rightarrow> loadRow b1 r (file + 1) rest)))"

text \<open>
  The loop \<^verbatim>\<open>for (r = 0; r < 8; r++)\<close> over \<^verbatim>\<open>rows[r]\<close>: a missing row is \<^verbatim>\<open>undefined\<close>,
  and iterating over it throws.
\<close>

fun loadRows :: "board \<Rightarrow> int list \<Rightarrow> string list \<Rightarrow> fault + board" where
  "loadRows b [] rows = Inr b"
| "loadRows b (r # rs) rows =
     (if nat r < length rows then
        (case loadRow b r 0 (rows ! nat r) of
           Inl e \<Rightarrow> Inl e
         | Inr b1 \<Rightarrow> loadRows b1 rs rows)
      else Inl TypeError)"

definition emptyBoard :: board where
  "emptyBoard = replicate 8 (replicate 8 None)"

definition loadFEN :: "session \<Rightarrow> string \<Rightarrow> fault + session" where
  "loadFEN s fen =
     (case loadRows emptyBoard idx8 (splitOn CHR ''/'' (hd (splitOn CHR '' '' fen))) of
        Inl e \<Rightarrow> Inl e
      | Inr b \<Rightarrow> Inr (s\<lparr>board := b, lastDouble := None, byWhite := [], byBlack := []\<rparr>))"

definition initialFEN :: string where
  "initialFEN = ''rnbqkbnr/pppppppp/8/8/8/8/PPPPPPPP/RNBQKBNR''"

text \<open>
  The values the module's \<^verbatim>\<open>let\<close> declarations give the globals. The content of the
  move list when the script starts belongs to the page, which is not part of the
  sources; it is the parameter \<open>page\<close>.
\<close>

definition globals :: "string list \<Rightarrow> session" where
  "globals page =
     \<lparr>board = [], turn = White, selected = None, legal = [], lastDouble = None,
      gameOver = False, byWhite = [], byBlack = [], history = [], movesEl = page\<rparr>"

definition init :: "string list \<Rightarrow> fault + session" where
  "init page =
     (case loadFEN (globals page) initialFEN of
        Inl e \<Rightarrow> Inl e
      | Inr s \<Rightarrow>
          render (s\<lparr>turn := White, selected := None, legal := [], gameOver := False,
                    history := []\<rparr>))"

text \<open>The click handler of the new-game button.\<close>

definition newGame :: "session \<Rightarrow> fault + session" where
  "newGame s =
     (case loadFEN s initialFEN of
        Inl e \<Rightarrow> Inl e
      | Inr s1 \<Rightarrow>
          render (s1\<lparr>movesEl := [], turn := White, selected := None, legal := [],
                     lastDouble := None, gameOver := False, history := []\<rparr>))"

text \<open>A sequence of clicks on squares, stopping at the first fault.\<close>

fun clicks :: "session \<Rightarrow> (int \<times> int) list \<Rightarrow> fault + session" where
  "clicks s [] = Inr s"
| "clicks s (sq # rest) =
     (case onSquareClick s (fst sq) (snd sq) of
        Inl e \<Rightarrow> Inl e
      | Inr s1 \<Rightarrow> clicks s1 rest)"

section \<open>Well-formed positions\<close>

text \<open>
  The board that \<^verbatim>\<open>loadFEN\<close> builds has eight rows of eight cells, and no write of a
  generated move changes that.
\<close>

definition wfBoard :: "board \<Rightarrow> bool" where
  "wfBoard b \<longleftrightarrow> length b = 8 \<and> list_all (\<lambda>row. length row = 8) b"

text \<open>
  A king whose \<^verbatim>\<open>moved\<close> flag is still false stands on the square where the standard
  position puts it: every piece that \<^verbatim>\<open>applyMove\<close> writes has the flag set.
\<close>

definition kingsHome :: "board \<Rightarrow> bool" where
  "kingsHome b =
     list_all (\<lambda>(r, c). case cell b r c of
                          None \<Rightarrow> True
                        | Some p \<Rightarrow>
                            if piece_t p = King then
                              (if moved p then True else r = homeRow (piece_c p) \<and> c = 4)
                            else True) squares"

text \<open>The en-passant target names a column of the board.\<close>

definition targetOk :: "target option \<Rightarrow> bool" where
  "targetOk ld = (case ld of None \<Rightarrow> True | Some l \<Rightarrow> 0 \<le> ld_c l \<and> ld_c l < 8)"

definition wellFormed :: "session \<Rightarrow> bool" where
  "wellFormed s \<longleftrightarrow> wfBoard (board s) \<and> kingsHome (board s) \<and> targetOk (lastDouble s)"

text \<open>
  A cell is stale when it does not hold a never-moved piece. A board evolves into another
  when every cell of the second is the cell of the first or is stale: this is what the
  writes of \<^verbatim>\<open>applyMove\<close> do, since every piece they store has \<^verbatim>\<open>moved: true\<close>.
\<close>

definition stale :: "piece option \<Rightarrow> bool" where
  "stale v = (case v of None \<Rightarrow> True | Some q \<Rightarrow> moved q)"

definition evolves :: "board \<Rightarrow> board \<Rightarrow> bool" where
  "evolves b b' \<longleftrightarrow>
     wfBoard b' \<and> (\<forall>x y. inBounds x y \<longrightarrow> cell b' x y = cell b x y \<or> stale (cell b' x y))"

text \<open>
  The session as the click handler leaves it: a well-formed position; when it is Black's
  turn the move list has an item (White's move was logged into it); a selected square holds
  a piece and the stored list \<^verbatim>\<open>legal\<close> was generated for it; and every snapshot on the
  history stack is of such a position.
\<close>

definition wfSnapshot :: "snapshot \<Rightarrow> bool" where
  "wfSnapshot sn \<longleftrightarrow>
     wfBoard (s_board sn) \<and> kingsHome (s_board sn) \<and> targetOk (s_lastDouble sn)
     \<and> (if s_turn sn = Black then s_movesHTML sn \<noteq> [] else True)"

definition selectionOk :: "session \<Rightarrow> bool" where
  "selectionOk s =
     (case selected s of
        None \<Rightarrow> True
      | Some sel \<Rightarrow>
          (case at (board s) (fst sel) (snd sel) of None \<Rightarrow> False | Some p \<Rightarrow> True)
          \<and> list_all (\<lambda>m. m \<in> set (genPseudo s (fst sel) (snd sel) False)) (legal s))"

definition consistent :: "session \<Rightarrow> bool" where
  "consistent s \<longleftrightarrow>
     wellFormed s
     \<and> (if turn s = Black then movesEl s \<noteq> [] else True)
     \<and> selectionOk s
     \<and> list_all wfSnapshot (history s)"

text \<open>The undo button pressed \<open>n\<close> times, stopping at the first fault.\<close>

fun undos :: "nat \<Rightarrow> session \<Rightarrow> fault + session" where
  "undos 0 s = Inr s"
| "undos (Suc n) s = (case undo s of Inl e \<Rightarrow> Inl e | Inr s1 \<Rightarrow> undos n s1)"

text \<open>
  The test of \<^verbatim>\<open>onSquareClick\<close> on the clicked square: it holds a piece of the side to
  move.
\<close>

definition ownPiece :: "session \<Rightarrow> int \<Rightarrow> int \<Rightarrow> bool" where
  "ownPiece s r c = (case at (board s) r c of None \<Rightarrow> False | Some p \<Rightarrow> piece_c p = turn s)"

text \<open>
  The session as a handler leaves it when it returns: it is consistent, \<^verbatim>\<open>render\<close> would
  change nothing more (\<^verbatim>\<open>gameOver\<close> already is what \<^verbatim>\<open>gameStatus(turn)\<close> says), and the
  stored list \<^verbatim>\<open>legal\<close> is the list that \<^verbatim>\<open>genLegal\<close> returns for the selected square.
\<close>

definition settled :: "session \<Rightarrow> bool" where
  "settled s \<longleftrightarrow>
     consistent s \<and> render s = Inr s
     \<and> (case selected s of
          None \<Rightarrow> True
        | Some sel \<Rightarrow> genLegal s (fst sel) (snd sel) = Inr (legal s, s))"

section \<open>Example positions\<close>

text \<open>
  The globals after \<^verbatim>\<open>loadFEN(fen)\<close> on a page whose move list is empty (the globals
  themselves when the string cannot be loaded).
\<close>

definition position :: "string \<Rightarrow> session" where
  "position fen = (case loadFEN (globals []) fen of Inl e \<Rightarrow> globals [] | Inr s \<Rightarrow> s)"

definition startPosition :: session where
  "startPosition = position initialFEN"

text \<open>
  A position without a white king: a white pawn on a3 blocked by a black pawn on a4,
  and the black king on h8.
\<close>

definition kinglessPosition :: session where
  "kinglessPosition = position ''7k/8/8/8/p7/P7/8/8''"

text \<open>
  White king on e1 and white rook on h1, never moved, and a black rook on g8 that attacks
  g1 along the empty g-file.
\<close>

definition attackedLandingPosition :: session where
  "attackedLandingPosition = position ''4k1r1/8/8/8/8/8/8/4K2R''"

text \<open>The same without the black rook: White may castle on the king's side.\<close>

definition castlingPosition :: session where
  "castlingPosition = position ''4k3/8/8/8/8/8/8/4K2R''"

text \<open>White king on e1, never moved, and a never-moved black rook on the corner h1.\<close>

definition opposingRookPosition :: session where
  "opposingRookPosition = position ''4k3/8/8/8/8/8/8/4K2r''"

text \<open>
  White king on e1 and white rook on h1, never moved, and a black pawn on g2, diagonally in
  front of the empty square f1 that the king crosses.
\<close>

definition pawnBesidePathPosition :: session where
  "pawnBesidePathPosition = position ''4k3/8/8/8/8/8/6p1/4K2R''"

text \<open>The start position with the pawn on e2 selected, and after the move f2-f3.\<close>

definition selectedE2 :: session where
  "selectedE2 = (case onSquareClick startPosition 6 4 of Inl e \<Rightarrow> startPosition | Inr s \<Rightarrow> s)"

definition afterF3 :: session where
  "afterF3 = (case clicks startPosition [(6, 5), (5, 5)] of Inl e \<Rightarrow> startPosition | Inr s \<Rightarrow> s)"

text \<open>
  A white pawn on e5 and a black pawn that has just gone d7-d5: the position in which the
  en-passant capture e5xd6 exists.
\<close>

definition enPassantPosition :: session where
  "enPassantPosition =
     (case applyMove (position ''4k3/3p4/8/4P3/8/8/8/4K3'')
             \<lparr>mfrom = (1, 3), mto = (3, 3), meta = (quiet 3 3)\<lparr>double := True\<rparr>\<rparr> False of
        Inl e \<Rightarrow> globals []
      | Inr s \<Rightarrow> s)"

text \<open>The castling position after the white king has gone e1-f1.\<close>

definition kingMovedPosition :: session where
  "kingMovedPosition =
     (case clicks castlingPosition [(7, 4), (7, 5)] of Inl e \<Rightarrow> castlingPosition | Inr s \<Rightarrow> s)"

section \<open>Reachable sessions\<close>

text \<open>
  The sessions the page can be in: after \<^verbatim>\<open>init\<close>, and after any click on a square, on
  the undo button or on the new-game button that returned.
\<close>

inductive reachable :: "session \<Rightarrow> bool" where
  start: "init page = Inr s \<Longrightarrow> reachable s"
| click: "reachable s \<Longrightarrow> onSquareClick s r c = Inr s' \<Longrightarrow> reachable s'"
| undone: "reachable s \<Longrightarrow> undo s = Inr s' \<Longrightarrow> reachable s'"
| restart: "reachable s \<Longrightarrow> newGame s = Inr s' \<Longrightarrow> reachable s'"

section \<open>The board as an array\<close>

lemma cloneBoard_id [simp]: "cloneBoard b = b"
proof -
  have "(\<lambda>p. case p of None \<Rightarrow> None | Some q \<Rightarrow> Some q) = (\<lambda>p::piece option. p)"
    by (auto split: option.splits)
  then show ?thesis by (simp add: cloneBoard_def)
qed

lemma idx8_iff: "r \<in> set idx8 \<longleftrightarrow> 0 \<le> r \<and> r < 8"
proof
  assume "r \<in> set idx8" then show "0 \<le> r \<and> r < 8" by (auto simp: idx8_def)
next
  assume "0 \<le> r \<and> r < 8"
  then have "r = 0 \<or> r = 1 \<or> r = 2 \<or> r = 3 \<or> r = 4 \<or> r = 5 \<or> r = 6 \<or> r = 7" by arith
  then show "r \<in> set idx8" by (auto simp: idx8_def)
qed

lemma squares_iff: "(r, c) \<in> set squares \<longleftrightarrow> inBounds r c"
proof -
  have "(r, c) \<in> set squares \<longleftrightarrow> r \<in> set idx8 \<and> c \<in> set idx8"
    unfolding squares_def by auto
  then show ?thesis by (simp add: idx8_iff inBounds_def)
qed

lemma setCell_Inr_iff: "setCell b r c v = Inr b' \<longleftrightarrow> inBounds r c \<and> b' = b[nat r := (b ! nat r)[nat c := v]]"
  unfolding setCell_def inBounds_def by auto

lemma setCell_total: "inBounds r c \<Longrightarrow> \<exists>b'. setCell b r c v = Inr b'"
  by (simp add: setCell_Inr_iff)

lemma inBounds_nat: "inBounds r c \<Longrightarrow> nat r < 8 \<and> nat c < 8"
  unfolding inBounds_def by arith

lemma wfBoard_row: "wfBoard b \<Longrightarrow> inBounds r c \<Longrightarrow> length (b ! nat r) = 8"
  using inBounds_nat[of r c] by (simp add: wfBoard_def list_all_length)


lemma wfBoard_setCell:
  assumes w: "wfBoard b" and s: "setCell b r c v = Inr b'"
  shows "wfBoard b'"
proof -
  from s have ib: "inBounds r c" and b': "b' = b[nat r := (b ! nat r)[nat c := v]]"
    by (simp_all add: setCell_Inr_iff)
  have len: "length ((b ! nat r)[nat c := v]) = 8" using wfBoard_row[OF w ib] by simp
  have "\<And>n. n < length b \<Longrightarrow> length (b' ! n) = 8"
  proof -
    fix n assume n: "n < length b"
    show "length (b' ! n) = 8"
    proof (cases "n = nat r")
      case True then show ?thesis using n len unfolding b' by simp
    next
      case False then show ?thesis using n w unfolding b' by (simp add: wfBoard_def list_all_length)
    qed
  qed
  moreover have "length b' = 8" using w unfolding b' by (simp add: wfBoard_def)
  ultimately show ?thesis using w by (simp add: wfBoard_def list_all_length)
qed

lemma cell_setCell:
  assumes w: "wfBoard b" and s: "setCell b r c v = Inr b'" and ib': "inBounds r' c'"
  shows "cell b' r' c' = (if r' = r \<and> c' = c then v else cell b r' c')"
proof -
  from s have ib: "inBounds r c" and b': "b' = b[nat r := (b ! nat r)[nat c := v]]"
    by (simp_all add: setCell_Inr_iff)
  have lr: "nat r < length b" using w inBounds_nat[OF ib] by (simp add: wfBoard_def)
  have lc: "nat c < length (b ! nat r)" using wfBoard_row[OF w ib] inBounds_nat[OF ib] by simp
  have eqr: "nat r' = nat r \<longleftrightarrow> r' = r" and eqc: "nat c' = nat c \<longleftrightarrow> c' = c"
    using ib ib' unfolding inBounds_def by arith+
  show ?thesis
  proof (cases "r' = r")
    case True
    then have "cell b' r' c' = ((b ! nat r)[nat c := v]) ! nat c'"
      unfolding b' cell_def using lr by simp
    also have "\<dots> = (if c' = c then v else b ! nat r ! nat c')"
    proof (cases "c' = c")
      case True then show ?thesis using lc by simp
    next
      case False
      then have "nat c \<noteq> nat c'" using eqc by simp
      then show ?thesis using False by simp
    qed
    finally show ?thesis using True by (simp add: cell_def)
  next
    case False
    then have "nat r \<noteq> nat r'" using eqr by simp
    then have "cell b' r' c' = cell b r' c'" unfolding b' cell_def by simp
    with False show ?thesis by simp
  qed
qed

lemma cell_setCell_cases:
  assumes s: "setCell b r c v = Inr b'"
  shows "cell b' r' c' = v \<or> cell b' r' c' = cell b r' c'"
proof -
  from s have b': "b' = b[nat r := (b ! nat r)[nat c := v]]"
    by (simp add: setCell_Inr_iff)
  show ?thesis
  proof (cases "nat r' = nat r \<and> nat r < length b")
    case True
    then have *: "cell b' r' c' = ((b ! nat r)[nat c := v]) ! nat c'" unfolding b' cell_def by simp
    show ?thesis
    proof (cases "nat c' = nat c \<and> nat c < length (b ! nat r)")
      case True then show ?thesis using * by simp
    next
      case False
      then have "((b ! nat r)[nat c := v]) ! nat c' = b ! nat r ! nat c'"
        by (cases "nat c' = nat c") (auto simp: list_update_beyond)
      then show ?thesis using * True by (simp add: cell_def)
    qed
  next
    case False
    then have "b' ! nat r' = b ! nat r'" unfolding b'
      by (cases "nat r' = nat r") (auto simp: list_update_beyond)
    then show ?thesis by (simp add: cell_def)
  qed
qed

section \<open>What the generator produces\<close>

lemma ally_at: "at b r c = Some p \<Longrightarrow> ally b r c (piece_c p)"
  by (auto simp: at_def ally_def split: if_splits)

lemma rayWalk_props:
  "m \<in> set (rayWalk b clr rr cc dr dc) \<Longrightarrow>
   inBounds (m_r m) (m_c m) \<and> \<not> ally b (m_r m) (m_c m) clr \<and> castle m = None \<and> \<not> ep m \<and> \<not> double m"
proof (induction b clr rr cc dr dc rule: rayWalk.induct)
  case (1 b clr rr cc dr dc)
  show ?case
  proof (cases "inBounds rr cc \<and> (dr \<noteq> 0 \<or> dc \<noteq> 0)")
    case False
    with "1.prems" show ?thesis by (simp add: rayWalk.simps)
  next
    case True
    show ?thesis
    proof (cases "cell b rr cc")
      case None
      with True "1.prems" have "m = quiet rr cc \<or> m \<in> set (rayWalk b clr (rr + dr) (cc + dc) dr dc)"
        by (subst (asm) rayWalk.simps) auto
      then show ?thesis
      proof
        assume "m = quiet rr cc"
        then show ?thesis using True None by (simp add: quiet_def ally_def)
      next
        assume "m \<in> set (rayWalk b clr (rr + dr) (cc + dc) dr dc)"
        then show ?thesis using "1.IH"[OF True None] by simp
      qed
    next
      case (Some q)
      with True "1.prems" have "piece_c q \<noteq> clr \<and> m = (quiet rr cc)\<lparr>cap := True\<rparr>"
        by (subst (asm) rayWalk.simps) (auto split: if_splits)
      then show ?thesis using True Some by (simp add: quiet_def ally_def)
    qed
  qed
qed

lemma rays_props:
  "m \<in> set (rays b clr r c dirs) \<Longrightarrow>
   inBounds (m_r m) (m_c m) \<and> \<not> ally b (m_r m) (m_c m) clr \<and> castle m = None \<and> \<not> ep m \<and> \<not> double m"
  unfolding rays_def by (auto dest: rayWalk_props)

lemma steps_props:
  "m \<in> set (steps b clr r c deltas) \<Longrightarrow>
   inBounds (m_r m) (m_c m) \<and> \<not> ally b (m_r m) (m_c m) clr \<and> castle m = None \<and> \<not> ep m \<and> \<not> double m"
  unfolding steps_def by (auto simp: quiet_def split: if_splits)


lemma pawnPushes_props:
  assumes m: "m \<in> set (pawnPushes b clr r c fa)"
  shows "inBounds (m_r m) (m_c m) \<and> m_r m \<noteq> r \<and> castle m = None \<and> \<not> ep m \<and> m_c m = c
    \<and> empty b (m_r m) (m_c m) \<and> \<not> fa
    \<and> (if double m then r = pawnStart clr \<and> m_r m = r + 2 * pawnDir clr else m_r m = r + pawnDir clr)"
  using m unfolding pawnPushes_def
  by (auto simp: quiet_def empty_def pawnDir_def split: if_splits)

lemma pawnCaptures_props:
  assumes m: "m \<in> set (pawnCaptures b clr r c)"
  shows "inBounds (m_r m) (m_c m) \<and> m_r m \<noteq> r \<and> castle m = None \<and> \<not> ep m \<and> \<not> double m
    \<and> enemy b (m_r m) (m_c m) clr"
  using m unfolding pawnCaptures_def
  by (auto simp: quiet_def enemy_def pawnDir_def split: if_splits)

lemma pawnEnPassant_props:
  assumes m: "m \<in> set (pawnEnPassant ld clr r c)"
  shows "m_r m = r + pawnDir clr \<and> castle m = None \<and> ep m \<and> \<not> double m
    \<and> r = (if clr = White then 3 else 4)
    \<and> (\<exists>l. ld = Some l \<and> ld_r l = r \<and> \<bar>ld_c l - c\<bar> = 1 \<and> m_c m = ld_c l)"
  using m unfolding pawnEnPassant_def
  by (auto simp: quiet_def split: if_splits option.splits)

lemma pawnMoves_props:
  assumes m: "m \<in> set (pawnMoves b ld clr r c fa)" and ib: "inBounds r c" and t: "targetOk ld"
  shows "inBounds (m_r m) (m_c m) \<and> m_r m \<noteq> r \<and> castle m = None"
proof -
  from m consider "m \<in> set (pawnPushes b clr r c fa)" | "m \<in> set (pawnCaptures b clr r c)"
    | "m \<in> set (pawnEnPassant ld clr r c)"
    unfolding pawnMoves_def by auto
  then show ?thesis
  proof cases
    case 1 from pawnPushes_props[OF this] show ?thesis by blast
  next
    case 2 from pawnCaptures_props[OF this] show ?thesis by blast
  next
    case 3
    from pawnEnPassant_props[OF this] obtain l where
      l: "ld = Some l" "m_c m = ld_c l" and r: "m_r m = r + pawnDir clr" "r = (if clr = White then 3 else 4)"
      and c: "castle m = None" by auto
    from l t have "0 \<le> m_c m \<and> m_c m < 8" by (simp add: targetOk_def)
    with r c show ?thesis by (auto simp: inBounds_def pawnDir_def split: if_splits)
  qed
qed

lemma pawnMoves_ep:
  assumes m: "m \<in> set (pawnMoves b ld clr r c fa)" and e: "ep m"
  shows "\<exists>l. ld = Some l \<and> ld_r l = r \<and> \<bar>ld_c l - c\<bar> = 1 \<and> m_c m = ld_c l \<and> \<not> double m"
proof -
  from m consider "m \<in> set (pawnPushes b clr r c fa)" | "m \<in> set (pawnCaptures b clr r c)"
    | "m \<in> set (pawnEnPassant ld clr r c)"
    unfolding pawnMoves_def by auto
  then show ?thesis
  proof cases
    case 1 from pawnPushes_props[OF this] e show ?thesis by simp
  next
    case 2 from pawnCaptures_props[OF this] e show ?thesis by simp
  next
    case 3 from pawnEnPassant_props[OF this] show ?thesis by auto
  qed
qed

lemma pawnMoves_double:
  assumes m: "m \<in> set (pawnMoves b ld clr r c fa)" and d: "double m"
  shows "\<not> fa \<and> r = pawnStart clr \<and> m_c m = c \<and> m_r m = r + 2 * pawnDir clr"
proof -
  from m consider "m \<in> set (pawnPushes b clr r c fa)" | "m \<in> set (pawnCaptures b clr r c)"
    | "m \<in> set (pawnEnPassant ld clr r c)"
    unfolding pawnMoves_def by auto
  then show ?thesis
  proof cases
    case 1 from pawnPushes_props[OF this] d show ?thesis by simp
  next
    case 2 from pawnCaptures_props[OF this] d show ?thesis by simp
  next
    case 3 from pawnEnPassant_props[OF this] d show ?thesis by simp
  qed
qed

lemma pieceMoves_props:
  assumes m: "m \<in> set (pieceMoves s p r c fa)" and a: "at (board s) r c = Some p"
    and t: "targetOk (lastDouble s)"
  shows "inBounds (m_r m) (m_c m) \<and> (m_r m, m_c m) \<noteq> (r, c) \<and> castle m = None"
proof -
  from a have ib: "inBounds r c" by (auto simp: at_def split: if_splits)
  have al: "ally (board s) r c (piece_c p)" using a by (rule ally_at)
  show ?thesis
  proof (cases "piece_t p")
    case Pawn
    with m have "m \<in> set (pawnMoves (board s) (lastDouble s) (piece_c p) r c fa)"
      by (simp add: pieceMoves_def)
    from pawnMoves_props[OF this ib t] show ?thesis by auto
  next
    case Knight
    with m have "m \<in> set (steps (board s) (piece_c p) r c knightDeltas)" by (simp add: pieceMoves_def)
    from steps_props[OF this] al show ?thesis by auto
  next
    case King
    with m have "m \<in> set (steps (board s) (piece_c p) r c kingDeltas)" by (simp add: pieceMoves_def)
    from steps_props[OF this] al show ?thesis by auto
  next
    case Bishop
    with m have "m \<in> set (rays (board s) (piece_c p) r c bishopDirs)" by (simp add: pieceMoves_def)
    from rays_props[OF this] al show ?thesis by auto
  next
    case Rook
    with m have "m \<in> set (rays (board s) (piece_c p) r c rookDirs)" by (simp add: pieceMoves_def)
    from rays_props[OF this] al show ?thesis by auto
  next
    case Queen
    with m have "m \<in> set (rays (board s) (piece_c p) r c (bishopDirs @ rookDirs))" by (simp add: pieceMoves_def)
    from rays_props[OF this] al show ?thesis by auto
  qed
qed


lemma genPseudo_None: "at (board s) r c = None \<Longrightarrow> genPseudo s r c fa = []"
  by (simp add: genPseudo.simps)

lemma genPseudo_attack:
  "genPseudo s r c True = (case at (board s) r c of None \<Rightarrow> [] | Some p \<Rightarrow> pieceMoves s p r c True)"
  by (simp add: genPseudo.simps split: option.splits)

lemma genPseudo_cases:
  assumes a: "at (board s) r c = Some p" and m: "m \<in> set (genPseudo s r c fa)"
  shows "m \<in> set (pieceMoves s p r c fa) \<or>
         (\<exists>sd. piece_t p = King \<and> \<not> fa \<and> \<not> moved p \<and> \<not> inCheck s (piece_c p)
               \<and> canCastle s (piece_c p) sd
               \<and> m = (quiet r (c + 2 * stepOf sd))\<lparr>castle := Some sd\<rparr>)"
proof -
  have "genPseudo s r c fa = pieceMoves s p r c fa @
          (if piece_t p = King then
             (if fa then []
              else if moved p then []
              else if inCheck s (piece_c p) then []
              else (if canCastle s (piece_c p) Kingside
                    then [(quiet r (c + 2))\<lparr>castle := Some Kingside\<rparr>] else [])
                 @ (if canCastle s (piece_c p) Queenside
                    then [(quiet r (c - 2))\<lparr>castle := Some Queenside\<rparr>] else []))
           else [])"
    using a by (simp add: genPseudo.simps)
  with m show ?thesis
    by (auto simp: stepOf_def split: if_splits)
qed

lemma canCastle_D:
  assumes "canCastle s clr sd"
  shows "\<exists>rook king. at (board s) (homeRow clr) (rookCol sd) = Some rook
           \<and> at (board s) (homeRow clr) 4 = Some king
           \<and> piece_t king = King \<and> piece_t rook = Rook \<and> \<not> moved king \<and> \<not> moved rook
           \<and> (\<forall>c \<in> set (betweenCols sd). empty (board s) (homeRow clr) c)
           \<and> (\<forall>c \<in> set (pathCols sd). \<not> attacksSquare s (opposite clr) (homeRow clr) c)"
  using assms
  by (subst (asm) canCastle.simps) (auto simp: list_ex_iff split: option.splits if_splits)

lemma kingsHome_D:
  assumes k: "kingsHome b" and a: "at b r c = Some p" and t: "piece_t p = King" and u: "\<not> moved p"
  shows "r = homeRow (piece_c p) \<and> c = 4"
proof -
  from a have ib: "inBounds r c" and ce: "cell b r c = Some p" by (auto simp: at_def split: if_splits)
  from ib have "(r, c) \<in> set squares" by (simp add: squares_iff)
  with k have "case cell b r c of None \<Rightarrow> True
     | Some p \<Rightarrow> if piece_t p = King then (if moved p then True else r = homeRow (piece_c p) \<and> c = 4) else True"
    unfolding kingsHome_def list_all_iff by fastforce
  with ce t u show ?thesis by simp
qed

lemma genPseudo_props:
  assumes w: "wellFormed s" and a: "at (board s) r c = Some p" and m: "m \<in> set (genPseudo s r c fa)"
  shows "inBounds (m_r m) (m_c m) \<and> (m_r m, m_c m) \<noteq> (r, c) \<and>
         (castle m = None \<or>
          (\<exists>sd. castle m = Some sd \<and> \<not> ep m \<and> \<not> double m \<and> m_r m = r \<and> c = 4
                \<and> m_c m = 4 + 2 * stepOf sd \<and> cell (board s) r (rookCol sd) \<noteq> None
                \<and> piece_t p = King))"
proof -
  from a have ib: "inBounds r c" by (auto simp: at_def split: if_splits)
  from genPseudo_cases[OF a m] show ?thesis
  proof
    assume "m \<in> set (pieceMoves s p r c fa)"
    from pieceMoves_props[OF this a] w show ?thesis by (simp add: wellFormed_def)
  next
    assume "\<exists>sd. piece_t p = King \<and> \<not> fa \<and> \<not> moved p \<and> \<not> inCheck s (piece_c p)
               \<and> canCastle s (piece_c p) sd
               \<and> m = (quiet r (c + 2 * stepOf sd))\<lparr>castle := Some sd\<rparr>"
    then obtain sd where k: "piece_t p = King" "\<not> moved p" and cc: "canCastle s (piece_c p) sd"
      and mm: "m = (quiet r (c + 2 * stepOf sd))\<lparr>castle := Some sd\<rparr>" by blast
    from w have kh: "kingsHome (board s)" by (simp add: wellFormed_def)
    from kingsHome_D[OF kh a k] have rc: "r = homeRow (piece_c p)" "c = 4" by simp_all
    from canCastle_D[OF cc] obtain rook where "at (board s) (homeRow (piece_c p)) (rookCol sd) = Some rook"
      by blast
    then have "cell (board s) r (rookCol sd) \<noteq> None" using rc by (auto simp: at_def split: if_splits)
    then show ?thesis using mm rc ib k
      by (auto simp: quiet_def inBounds_def stepOf_def)
  qed
qed

section \<open>The writes of a move\<close>

lemma moveOnBoard_total:
  assumes w: "wfBoard b" and ibf: "inBounds r c" and ibt: "inBounds tr tc" and ne: "(tr, tc) \<noteq> (r, c)"
    and cs: "castle mt = None \<or>
             (\<exists>sd. castle mt = Some sd \<and> \<not> ep mt \<and> tr = r \<and> c = 4 \<and> tc = 4 + 2 * stepOf sd
                   \<and> cell b r (rookCol sd) \<noteq> None)"
  shows "\<exists>b'. moveOnBoard b p r c tr tc mt = Inr b'"
proof -
  have ibe: "inBounds r tc" using ibf ibt by (simp add: inBounds_def)
  obtain b1 where b1: "(if ep mt then setCell b r tc None else Inr b) = Inr b1"
    using setCell_total[OF ibe, of b None] by (cases "ep mt") auto
  have w1: "wfBoard b1" using b1 w wfBoard_setCell by (cases "ep mt") auto
  obtain b2 where b2: "setCell b1 tr tc (Some (p\<lparr>moved := True\<rparr>)) = Inr b2"
    using setCell_total[OF ibt] by blast
  have w2: "wfBoard b2" using wfBoard_setCell[OF w1 b2] .
  obtain b3 where b3: "setCell b2 r c None = Inr b3" using setCell_total[OF ibf] by blast
  have w3: "wfBoard b3" using wfBoard_setCell[OF w2 b3] .
  have c3to: "cell b3 tr tc = Some (p\<lparr>moved := True\<rparr>)"
    using cell_setCell[OF w2 b3 ibt] cell_setCell[OF w1 b2 ibt] ne by auto
  have "\<exists>b4. castleRook b3 tr (castle mt) = Inr b4 \<and> cell b4 tr tc = Some (p\<lparr>moved := True\<rparr>)"
  proof (cases "castle mt")
    case None
    then show ?thesis using c3to by (simp add: castleRook_def)
  next
    case (Some sd)
    with cs have e: "\<not> ep mt" and tr: "tr = r" and c4: "c = 4" and tc: "tc = 4 + 2 * stepOf sd"
      and rk: "cell b r (rookCol sd) \<noteq> None" by auto
    have ibr: "inBounds r (rookCol sd)" using ibf by (simp add: inBounds_def rookCol_def)
    have "b1 = b" using b1 e by simp
    then have "cell b3 r (rookCol sd) = cell b r (rookCol sd)"
      using cell_setCell[OF w2 b3 ibr] cell_setCell[OF w1 b2 ibr] tr tc c4
      by (auto simp: rookCol_def stepOf_def split: if_splits)
    with rk obtain rook where rook: "cell b3 tr (rookCol sd) = Some rook" using tr by auto
    let ?nc = "if sd = Kingside then 5 else 3 :: int"
    have ibn: "inBounds tr ?nc" using ibt by (simp add: inBounds_def)
    obtain b4a where b4a: "setCell b3 tr ?nc (Some (rook\<lparr>moved := True\<rparr>)) = Inr b4a"
      using setCell_total[OF ibn] by blast
    have w4a: "wfBoard b4a" using wfBoard_setCell[OF w3 b4a] .
    have ibr': "inBounds tr (rookCol sd)" using ibr tr by simp
    obtain b4 where b4: "setCell b4a tr (rookCol sd) None = Inr b4"
      using setCell_total[OF ibr'] by blast
    have "cell b4 tr tc = cell b3 tr tc"
      using cell_setCell[OF w4a b4 ibt] cell_setCell[OF w3 b4a ibt] tc
      by (auto simp: rookCol_def stepOf_def split: if_splits)
    then show ?thesis using Some rook b4a b4 c3to by (simp add: castleRook_def)
  qed
  then obtain b4 where b4: "castleRook b3 tr (castle mt) = Inr b4"
    and c4to: "cell b4 tr tc = Some (p\<lparr>moved := True\<rparr>)" by blast
  have "\<exists>b5. promote b4 tr tc = Inr b5"
    using c4to setCell_total[OF ibt] by (simp add: promote_def)
  then obtain b5 where b5: "promote b4 tr tc = Inr b5" by blast
  show ?thesis using b1 b2 b3 b4 b5 by (simp add: moveOnBoard_def)
qed


lemma evolves_refl: "wfBoard b \<Longrightarrow> evolves b b"
  by (simp add: evolves_def)

lemma evolves_trans: "evolves b b1 \<Longrightarrow> evolves b1 b2 \<Longrightarrow> evolves b b2"
  unfolding evolves_def by metis

lemma evolves_wf: "evolves b b' \<Longrightarrow> wfBoard b'"
  by (simp add: evolves_def)

lemma evolves_stale: "evolves b b' \<Longrightarrow> inBounds x y \<Longrightarrow> stale (cell b x y) \<Longrightarrow> stale (cell b' x y)"
  unfolding evolves_def by metis

lemma setCell_evolves:
  assumes w: "wfBoard b" and s: "setCell b r c v = Inr b'" and v: "stale v"
  shows "evolves b b'"
proof -
  have "\<And>x y. inBounds x y \<Longrightarrow> cell b' x y = cell b x y \<or> stale (cell b' x y)"
    using cell_setCell[OF w s] v by auto
  then show ?thesis using wfBoard_setCell[OF w s] by (simp add: evolves_def)
qed

lemma castleRook_evolves:
  assumes w: "wfBoard b" and s: "castleRook b row cs = Inr b'"
  shows "evolves b b'"
proof (cases cs)
  case None
  with s w show ?thesis by (simp add: castleRook_def evolves_refl)
next
  case (Some sd)
  with s obtain rk b1 where
    b1: "setCell b row (if sd = Kingside then 5 else 3) (Some (rk\<lparr>moved := True\<rparr>)) = Inr b1"
    and b': "setCell b1 row (rookCol sd) None = Inr b'"
    by (auto simp: castleRook_def split: option.splits sum.splits)
  have e1: "evolves b b1" using setCell_evolves[OF w b1] by (simp add: stale_def)
  have "evolves b1 b'" using setCell_evolves[OF evolves_wf[OF e1] b'] by (simp add: stale_def)
  with e1 show ?thesis by (rule evolves_trans)
qed

lemma promote_evolves:
  assumes w: "wfBoard b" and s: "promote b tr tc = Inr b'" and st: "stale (cell b tr tc)"
  shows "evolves b b'"
proof -
  from s obtain q where q: "cell b tr tc = Some q" by (auto simp: promote_def split: option.splits)
  with st have mq: "moved q" by (simp add: stale_def)
  show ?thesis
  proof (cases "piece_t q = Pawn \<and> (tr = 0 \<or> tr = 7)")
    case True
    with s q have "setCell b tr tc (Some (q\<lparr>piece_t := Queen\<rparr>)) = Inr b'" by (simp add: promote_def)
    from setCell_evolves[OF w this] mq show ?thesis by (simp add: stale_def)
  next
    case False
    with s q have "b' = b" by (auto simp: promote_def)
    with w show ?thesis by (simp add: evolves_refl)
  qed
qed

lemma moveOnBoard_evolves:
  assumes w: "wfBoard b" and s: "moveOnBoard b p fr fc tr tc mt = Inr b'"
  shows "evolves b b' \<and> inBounds fr fc \<and> inBounds tr tc"
proof -
  from s obtain b1 b2 b3 b4 where
    b1: "(if ep mt then setCell b fr tc None else Inr b) = Inr b1"
    and b2: "setCell b1 tr tc (Some (p\<lparr>moved := True\<rparr>)) = Inr b2"
    and b3: "setCell b2 fr fc None = Inr b3"
    and b4: "castleRook b3 tr (castle mt) = Inr b4"
    and b5: "promote b4 tr tc = Inr b'"
    unfolding moveOnBoard_def by (auto split: sum.splits)
  have ibt: "inBounds tr tc" using b2 by (simp add: setCell_Inr_iff)
  have ibf: "inBounds fr fc" using b3 by (simp add: setCell_Inr_iff)
  have e1: "evolves b b1"
  proof (cases "ep mt")
    case True
    with b1 have "setCell b fr tc None = Inr b1" by simp
    from setCell_evolves[OF w this] show ?thesis by (simp add: stale_def)
  next
    case False
    with b1 w show ?thesis by (simp add: evolves_refl)
  qed
  have w1: "wfBoard b1" using e1 by (rule evolves_wf)
  have e2: "evolves b1 b2" using setCell_evolves[OF w1 b2] by (simp add: stale_def)
  have w2: "wfBoard b2" using e2 by (rule evolves_wf)
  have e3: "evolves b2 b3" using setCell_evolves[OF w2 b3] by (simp add: stale_def)
  have w3: "wfBoard b3" using e3 by (rule evolves_wf)
  have e4: "evolves b3 b4" using castleRook_evolves[OF w3 b4] .
  have w4: "wfBoard b4" using e4 by (rule evolves_wf)
  have "stale (cell b2 tr tc)" using cell_setCell[OF w1 b2 ibt] by (simp add: stale_def)
  then have "stale (cell b3 tr tc)" using evolves_stale[OF e3 ibt] by simp
  then have "stale (cell b4 tr tc)" using evolves_stale[OF e4 ibt] by simp
  then have e5: "evolves b4 b'" using promote_evolves[OF w4 b5] by simp
  from e1 e2 e3 e4 e5 have "evolves b b'" by (blast intro: evolves_trans)
  with ibt ibf show ?thesis by simp
qed

lemma kingsHome_evolves:
  assumes k: "kingsHome b" and e: "evolves b b'"
  shows "kingsHome b'"
proof -
  have "\<And>r c. (r, c) \<in> set squares \<Longrightarrow>
      (case cell b' r c of None \<Rightarrow> True
       | Some p \<Rightarrow> if piece_t p = King then (if moved p then True else r = homeRow (piece_c p) \<and> c = 4) else True)"
  proof -
    fix r c assume sq: "(r, c) \<in> set squares"
    then have ib: "inBounds r c" by (simp add: squares_iff)
    from k sq have old: "(case cell b r c of None \<Rightarrow> True
       | Some p \<Rightarrow> if piece_t p = King then (if moved p then True else r = homeRow (piece_c p) \<and> c = 4) else True)"
      unfolding kingsHome_def list_all_iff by fastforce
    from e ib have "cell b' r c = cell b r c \<or> stale (cell b' r c)" by (simp add: evolves_def)
    then show "(case cell b' r c of None \<Rightarrow> True
       | Some p \<Rightarrow> if piece_t p = King then (if moved p then True else r = homeRow (piece_c p) \<and> c = 4) else True)"
    proof
      assume "cell b' r c = cell b r c" with old show ?thesis by simp
    next
      assume "stale (cell b' r c)" then show ?thesis by (auto simp: stale_def split: option.splits)
    qed
  qed
  then show ?thesis unfolding kingsHome_def list_all_iff by fastforce
qed

section \<open>Effects of applyMove\<close>

lemma restore_simulated:
  "restoreSnapshot (s\<lparr>board := b, lastDouble := d\<rparr>) (snapshot s) = s"
  by (simp add: restoreSnapshot_def snapshot_def)

lemma applyMove_simulate:
  "applyMove s m True =
     (case at (board s) (fst (mfrom m)) (snd (mfrom m)) of
        None \<Rightarrow> Inl TypeError
      | Some p \<Rightarrow>
         (case moveOnBoard (board s) p (fst (mfrom m)) (snd (mfrom m))
                 (fst (mto m)) (snd (mto m)) (meta m) of
            Inl e \<Rightarrow> Inl e
          | Inr b \<Rightarrow>
              Inr (s\<lparr>board := b,
                     lastDouble := newTarget p m\<rparr>)))"
  by (simp add: applyMove_def Let_def split: option.splits sum.splits)

lemma pushCaptured_fields:
  "board (pushCaptured s clr i) = board s \<and> turn (pushCaptured s clr i) = turn s
   \<and> selected (pushCaptured s clr i) = selected s \<and> legal (pushCaptured s clr i) = legal s
   \<and> lastDouble (pushCaptured s clr i) = lastDouble s \<and> gameOver (pushCaptured s clr i) = gameOver s
   \<and> history (pushCaptured s clr i) = history s \<and> movesEl (pushCaptured s clr i) = movesEl s"
  by (simp add: pushCaptured_def)

lemma recordCaptures_fields:
  "board (recordCaptures s p m) = board s \<and> turn (recordCaptures s p m) = turn s
   \<and> selected (recordCaptures s p m) = selected s \<and> legal (recordCaptures s p m) = legal s
   \<and> lastDouble (recordCaptures s p m) = lastDouble s \<and> gameOver (recordCaptures s p m) = gameOver s
   \<and> history (recordCaptures s p m) = history s \<and> movesEl (recordCaptures s p m) = movesEl s"
  by (simp add: recordCaptures_def Let_def pushCaptured_fields split: option.splits)

lemma logMove_fields:
  assumes "logMove s p cp to mt = Inr s'"
  shows "board s' = board s \<and> turn s' = turn s \<and> selected s' = selected s \<and> legal s' = legal s
   \<and> lastDouble s' = lastDouble s \<and> gameOver s' = gameOver s \<and> history s' = history s
   \<and> byWhite s' = byWhite s \<and> byBlack s' = byBlack s \<and> movesEl s' \<noteq> []"
  using assms by (auto simp: logMove_def split: if_splits)

lemma applyMove_fields:
  assumes a: "applyMove s m sim = Inr s'"
  shows "\<exists>p b. at (board s) (fst (mfrom m)) (snd (mfrom m)) = Some p
           \<and> moveOnBoard (board s) p (fst (mfrom m)) (snd (mfrom m))
                 (fst (mto m)) (snd (mto m)) (meta m) = Inr b
           \<and> board s' = b
           \<and> lastDouble s' = newTarget p m
           \<and> turn s' = turn s \<and> selected s' = selected s \<and> legal s' = legal s
           \<and> gameOver s' = gameOver s \<and> history s' = history s
           \<and> (sim \<or> movesEl s' \<noteq> [])"
proof -
  from a obtain p where p: "at (board s) (fst (mfrom m)) (snd (mfrom m)) = Some p"
    by (auto simp: applyMove_def split: option.splits)
  from a p obtain b where b: "moveOnBoard (board s) p (fst (mfrom m)) (snd (mfrom m))
                 (fst (mto m)) (snd (mto m)) (meta m) = Inr b"
    by (auto simp: applyMove_def split: sum.splits)
  show ?thesis
  proof (cases sim)
    case True
    with a p b show ?thesis by (auto simp: applyMove_simulate)
  next
    case False
    let ?s2 = "(recordCaptures s p m)\<lparr>board := b, lastDouble := newTarget p m\<rparr>"
    from a p b False have "logMove ?s2 p (at (board s) (fst (mto m)) (snd (mto m))) (mto m) (meta m) = Inr s'"
      by (simp add: applyMove_def Let_def)
    from logMove_fields[OF this] p b False show ?thesis
      by (simp add: recordCaptures_fields)
  qed
qed

lemma applyMove_wellFormed:
  assumes w: "wellFormed s" and a: "applyMove s m sim = Inr s'"
  shows "wellFormed s'"
proof -
  from applyMove_fields[OF a] obtain p b where
    b: "moveOnBoard (board s) p (fst (mfrom m)) (snd (mfrom m))
                 (fst (mto m)) (snd (mto m)) (meta m) = Inr b"
    and bs: "board s' = b"
    and ld: "lastDouble s' = newTarget p m" by blast
  from w have wb: "wfBoard (board s)" and kh: "kingsHome (board s)" by (simp_all add: wellFormed_def)
  from moveOnBoard_evolves[OF wb b] have e: "evolves (board s) b"
    and ibt: "inBounds (fst (mto m)) (snd (mto m))" by simp_all
  have "targetOk (lastDouble s')" using ld ibt by (simp add: targetOk_def inBounds_def newTarget_def)
  then show ?thesis using evolves_wf[OF e] kingsHome_evolves[OF kh e] bs
    by (simp add: wellFormed_def)
qed

lemma applyMove_generated:
  assumes w: "wellFormed s" and a: "at (board s) r c = Some p" and m: "m \<in> set (genPseudo s r c fa)"
  shows "\<exists>s1. applyMove s \<lparr>mfrom = (r, c), mto = (m_r m, m_c m), meta = m\<rparr> True = Inr s1"
proof -
  from a have ib: "inBounds r c" by (auto simp: at_def split: if_splits)
  from w have wb: "wfBoard (board s)" by (simp add: wellFormed_def)
  from genPseudo_props[OF w a m] have ibt: "inBounds (m_r m) (m_c m)" and ne: "(m_r m, m_c m) \<noteq> (r, c)"
    and cs: "castle m = None \<or>
          (\<exists>sd. castle m = Some sd \<and> \<not> ep m \<and> m_r m = r \<and> c = 4
                \<and> m_c m = 4 + 2 * stepOf sd \<and> cell (board s) r (rookCol sd) \<noteq> None)" by auto
  from moveOnBoard_total[OF wb ib ibt ne cs, of p] obtain b' where
    "moveOnBoard (board s) p r c (m_r m) (m_c m) m = Inr b'" by blast
  then show ?thesis using a by (simp add: applyMove_simulate)
qed

section \<open>Legality filtering leaves the session as it was\<close>

lemma applyMove_simulate_restore:
  assumes "applyMove s m True = Inr s1"
  shows "restoreSnapshot s1 (snapshot s) = s"
proof -
  from assms obtain b d where "s1 = s\<lparr>board := b, lastDouble := d\<rparr>"
    by (auto simp: applyMove_simulate split: option.splits sum.splits)
  then show ?thesis by (simp add: restore_simulated)
qed

lemma legalLoop_frame:
  "legalLoop s r c clr ms = Inr (res, s') \<Longrightarrow>
   s' = s \<and> res = filter (\<lambda>m. case applyMove s \<lparr>mfrom = (r, c), mto = (m_r m, m_c m), meta = m\<rparr> True of
                             Inl e \<Rightarrow> False | Inr s1 \<Rightarrow> \<not> inCheck s1 clr) ms"
proof (induction ms arbitrary: res s')
  case Nil
  then show ?case by simp
next
  case (Cons m ms)
  from Cons.prems obtain s1 where s1: "applyMove s \<lparr>mfrom = (r, c), mto = (m_r m, m_c m), meta = m\<rparr> True = Inr s1"
    by (auto split: sum.splits)
  have rs: "restoreSnapshot s1 (snapshot s) = s" using applyMove_simulate_restore[OF s1] .
  from Cons.prems s1 rs obtain rest s3 where
    rest: "legalLoop s r c clr ms = Inr (rest, s3)"
    and res: "res = (if inCheck s1 clr then rest else m # rest)" and s': "s' = s3"
    by (auto split: sum.splits)
  from Cons.IH[OF rest] res s' s1 show ?case by simp
qed

lemma legalLoop_total:
  "(\<And>m. m \<in> set ms \<Longrightarrow> \<exists>s1. applyMove s \<lparr>mfrom = (r, c), mto = (m_r m, m_c m), meta = m\<rparr> True = Inr s1)
   \<Longrightarrow> \<exists>res. legalLoop s r c clr ms = Inr (res, s)"
proof (induction ms)
  case Nil
  then show ?case by simp
next
  case (Cons m ms)
  from Cons.prems[of m] obtain s1 where
    s1: "applyMove s \<lparr>mfrom = (r, c), mto = (m_r m, m_c m), meta = m\<rparr> True = Inr s1" by auto
  have rs: "restoreSnapshot s1 (snapshot s) = s" using applyMove_simulate_restore[OF s1] .
  from Cons.IH Cons.prems obtain rest where "legalLoop s r c clr ms = Inr (rest, s)" by auto
  then show ?case using s1 rs by simp
qed

lemma genLegal_frame:
  assumes g: "genLegal s r c = Inr (ms, s')"
  shows "s' = s"
proof (cases "at (board s) r c")
  case None
  with g show ?thesis by (simp add: genLegal_def)
next
  case (Some p)
  with g have "legalLoop s r c (piece_c p) (genPseudo s r c False) = Inr (ms, s')"
    by (simp add: genLegal_def)
  from legalLoop_frame[OF this] show ?thesis by simp
qed

lemma genLegal_subset:
  assumes g: "genLegal s r c = Inr (ms, s')"
  shows "set ms \<subseteq> set (genPseudo s r c False)"
proof (cases "at (board s) r c")
  case None
  with g show ?thesis by (simp add: genLegal_def)
next
  case (Some p)
  with g have "legalLoop s r c (piece_c p) (genPseudo s r c False) = Inr (ms, s')"
    by (simp add: genLegal_def)
  from legalLoop_frame[OF this] have
    "ms = filter (\<lambda>m. case applyMove s \<lparr>mfrom = (r, c), mto = (m_r m, m_c m), meta = m\<rparr> True of
                             Inl e \<Rightarrow> False | Inr s1 \<Rightarrow> \<not> inCheck s1 (piece_c p)) (genPseudo s r c False)"
    by simp
  then show ?thesis by (simp only: filter_is_subset)
qed

lemma genLegal_total:
  assumes w: "wellFormed s"
  shows "\<exists>ms. genLegal s r c = Inr (ms, s)"
proof (cases "at (board s) r c")
  case None
  then show ?thesis by (simp add: genLegal_def)
next
  case (Some p)
  have "\<exists>res. legalLoop s r c (piece_c p) (genPseudo s r c False) = Inr (res, s)"
    by (rule legalLoop_total) (rule applyMove_generated[OF w Some])
  then show ?thesis using Some by (simp add: genLegal_def)
qed

lemma anyLoop_frame:
  "anyLoop s clr sqs = Inr (res, s') \<Longrightarrow> s' = s"
proof (induction sqs)
  case Nil
  then show ?case by simp
next
  case (Cons sq sqs)
  show ?case
  proof (cases "at (board s) (fst sq) (snd sq)")
    case None
    with Cons.prems have "anyLoop s clr sqs = Inr (res, s')" by simp
    then show ?thesis by (rule Cons.IH)
  next
    case (Some p)
    show ?thesis
    proof (cases "piece_c p \<noteq> clr")
      case True
      with Some Cons.prems have "anyLoop s clr sqs = Inr (res, s')" by simp
      then show ?thesis by (rule Cons.IH)
    next
      case False
      with Some Cons.prems obtain leg s1 where g: "genLegal s (fst sq) (snd sq) = Inr (leg, s1)"
        and r: "(if leg \<noteq> [] then Inr (True, s1) else anyLoop s1 clr sqs) = Inr (res, s')"
        by (auto split: sum.splits)
      from genLegal_frame[OF g] have s1: "s1 = s" .
      show ?thesis
      proof (cases "leg = []")
        case True
        with r s1 have "anyLoop s clr sqs = Inr (res, s')" by simp
        then show ?thesis by (rule Cons.IH)
      next
        case False
        with r s1 show ?thesis by simp
      qed
    qed
  qed
qed

lemma anyLoop_total:
  assumes w: "wellFormed s"
  shows "\<exists>res. anyLoop s clr sqs = Inr (res, s)"
proof (induction sqs)
  case Nil
  show ?case by (rule exI[of _ False]) simp
next
  case (Cons sq sqs)
  from genLegal_total[OF w] obtain ms where g: "genLegal s (fst sq) (snd sq) = Inr (ms, s)" by blast
  from Cons obtain res where r: "anyLoop s clr sqs = Inr (res, s)" by blast
  show ?case
  proof (cases "at (board s) (fst sq) (snd sq)")
    case None
    with r show ?thesis by simp
  next
    case (Some p)
    show ?thesis
    proof (cases "piece_c p \<noteq> clr")
      case True
      with Some r show ?thesis by simp
    next
      case False
      show ?thesis
      proof (cases "ms = []")
        case True
        with False Some r g show ?thesis by simp
      next
        case nonempty: False
        with False Some g have "anyLoop s clr (sq # sqs) = Inr (True, s)" by simp
        then show ?thesis by blast
      qed
    qed
  qed
qed

lemma gameStatus_frame:
  assumes "gameStatus s clr = Inr (st, s')"
  shows "s' = s"
proof -
  from assms obtain hm where "anyLoop s clr squares = Inr (hm, s')"
    by (auto simp: gameStatus_def anyLegalMove_def split: sum.splits)
  then show ?thesis by (rule anyLoop_frame)
qed

lemma gameStatus_total:
  assumes "wellFormed s"
  shows "\<exists>st. gameStatus s clr = Inr (st, s)"
proof -
  from anyLoop_total[OF assms] obtain hm where "anyLoop s clr squares = Inr (hm, s)" by blast
  then show ?thesis by (simp add: gameStatus_def anyLegalMove_def)
qed

lemma render_frame:
  assumes "render s = Inr s'"
  shows "\<exists>g. s' = s\<lparr>gameOver := g\<rparr>"
proof -
  from assms obtain st s1 where g: "gameStatus s (turn s) = Inr (st, s1)"
    and s': "s' = s1\<lparr>gameOver := (st \<noteq> Ongoing)\<rparr>"
    by (auto simp: render_def split: sum.splits)
  from gameStatus_frame[OF g] s' show ?thesis by blast
qed

lemma render_total:
  assumes "wellFormed s"
  shows "\<exists>g. render s = Inr (s\<lparr>gameOver := g\<rparr>)"
proof -
  from gameStatus_total[OF assms] obtain st where "gameStatus s (turn s) = Inr (st, s)" by blast
  then have "render s = Inr (s\<lparr>gameOver := (st \<noteq> Ongoing)\<rparr>)" by (simp add: render_def)
  then show ?thesis by blast
qed

section \<open>Check depends on the board and the en-passant target only\<close>

lemma pieceMoves_cong:
  "board s = board s' \<Longrightarrow> lastDouble s = lastDouble s' \<Longrightarrow>
   pieceMoves s p r c fa = pieceMoves s' p r c fa"
  by (cases "piece_t p") (simp_all add: pieceMoves_def)

lemma attacksSquare_cong:
  assumes "board s = board s'" and "lastDouble s = lastDouble s'"
  shows "attacksSquare s clr r c = attacksSquare s' clr r c"
proof -
  have ga: "\<And>rr cc. genPseudo s rr cc True = genPseudo s' rr cc True"
    using assms pieceMoves_cong[OF assms] by (simp add: genPseudo_attack cong: option.case_cong)
  show ?thesis unfolding attacksSquare.simps ga assms(1) by simp
qed

lemma inCheck_cong:
  assumes "board s = board s'" and "lastDouble s = lastDouble s'"
  shows "inCheck s clr = inCheck s' clr"
proof -
  have "kingPos s clr = kingPos s' clr" using assms by (simp add: kingPos_def)
  then show ?thesis unfolding inCheck.simps attacksSquare_cong[OF assms] by simp
qed

lemma applyMove_simulate_agrees:
  assumes a: "applyMove s m sim = Inr s1" and b: "applyMove s m True = Inr s2"
  shows "board s1 = board s2 \<and> lastDouble s1 = lastDouble s2"
proof -
  from applyMove_fields[OF a] applyMove_fields[OF b] show ?thesis by auto
qed

lemma genLegal_members:
  assumes g: "genLegal s r c = Inr (ms, s')" and a: "at (board s) r c = Some p" and m: "m \<in> set ms"
  shows "\<exists>s1. applyMove s \<lparr>mfrom = (r, c), mto = (m_r m, m_c m), meta = m\<rparr> True = Inr s1
              \<and> \<not> inCheck s1 (piece_c p)"
proof -
  from g a have "legalLoop s r c (piece_c p) (genPseudo s r c False) = Inr (ms, s')"
    by (simp add: genLegal_def)
  from legalLoop_frame[OF this] m
  have "case applyMove s \<lparr>mfrom = (r, c), mto = (m_r m, m_c m), meta = m\<rparr> True of
          Inl e \<Rightarrow> False | Inr s1 \<Rightarrow> \<not> inCheck s1 (piece_c p)" by simp
  then show ?thesis by (auto split: sum.splits)
qed

section \<open>A side without a king\<close>

lemma kingPos_None_iff:
  "kingPos s clr = None \<longleftrightarrow>
   (\<forall>r c p. at (board s) r c = Some p \<longrightarrow> \<not> (piece_t p = King \<and> piece_c p = clr))"
proof
  assume n: "kingPos s clr = None"
  show "\<forall>r c p. at (board s) r c = Some p \<longrightarrow> \<not> (piece_t p = King \<and> piece_c p = clr)"
  proof (intro allI impI)
    fix r c p assume a: "at (board s) r c = Some p"
    then have ib: "inBounds r c" and ce: "cell (board s) r c = Some p"
      by (auto simp: at_def split: if_splits)
    from ib have "(r, c) \<in> set squares" by (simp add: squares_iff)
    with n have "\<not> (case cell (board s) r c of None \<Rightarrow> False
                     | Some p \<Rightarrow> piece_t p = King \<and> piece_c p = clr)"
      unfolding kingPos_def find_None_iff by fastforce
    with ce show "\<not> (piece_t p = King \<and> piece_c p = clr)" by simp
  qed
next
  assume h: "\<forall>r c p. at (board s) r c = Some p \<longrightarrow> \<not> (piece_t p = King \<and> piece_c p = clr)"
  have "\<And>r c. (r, c) \<in> set squares \<Longrightarrow>
          \<not> (case cell (board s) r c of None \<Rightarrow> False
              | Some p \<Rightarrow> piece_t p = King \<and> piece_c p = clr)"
  proof -
    fix r c assume "(r, c) \<in> set squares"
    then have ib: "inBounds r c" by (simp add: squares_iff)
    show "\<not> (case cell (board s) r c of None \<Rightarrow> False
              | Some p \<Rightarrow> piece_t p = King \<and> piece_c p = clr)"
    proof (cases "cell (board s) r c")
      case None then show ?thesis by simp
    next
      case (Some p)
      with ib have "at (board s) r c = Some p" by (simp add: at_def)
      with h Some show ?thesis by auto
    qed
  qed
  then show "kingPos s clr = None" unfolding kingPos_def find_None_iff by auto
qed

section \<open>Castling\<close>

lemma pieceMoves_castle:
  assumes m: "m \<in> set (pieceMoves s p r c fa)"
  shows "castle m = None"
proof (cases "piece_t p")
  case Pawn
  with m have "m \<in> set (pawnPushes (board s) (piece_c p) r c fa)
     \<or> m \<in> set (pawnCaptures (board s) (piece_c p) r c)
     \<or> m \<in> set (pawnEnPassant (lastDouble s) (piece_c p) r c)"
    by (auto simp: pieceMoves_def pawnMoves_def)
  then show ?thesis using pawnPushes_props pawnCaptures_props pawnEnPassant_props by blast
next
  case Knight
  with m have "m \<in> set (steps (board s) (piece_c p) r c knightDeltas)" by (simp add: pieceMoves_def)
  from steps_props[OF this] show ?thesis by simp
next
  case King
  with m have "m \<in> set (steps (board s) (piece_c p) r c kingDeltas)" by (simp add: pieceMoves_def)
  from steps_props[OF this] show ?thesis by simp
next
  case Bishop
  with m have "m \<in> set (rays (board s) (piece_c p) r c bishopDirs)" by (simp add: pieceMoves_def)
  from rays_props[OF this] show ?thesis by simp
next
  case Rook
  with m have "m \<in> set (rays (board s) (piece_c p) r c rookDirs)" by (simp add: pieceMoves_def)
  from rays_props[OF this] show ?thesis by simp
next
  case Queen
  with m have "m \<in> set (rays (board s) (piece_c p) r c (bishopDirs @ rookDirs))" by (simp add: pieceMoves_def)
  from rays_props[OF this] show ?thesis by simp
qed

lemma genPseudo_castle_D:
  assumes a: "at (board s) r c = Some p" and m: "m \<in> set (genPseudo s r c fa)"
    and cs: "castle m = Some sd"
  shows "piece_t p = King \<and> \<not> fa \<and> \<not> moved p \<and> \<not> inCheck s (piece_c p)
         \<and> canCastle s (piece_c p) sd \<and> m = (quiet r (c + 2 * stepOf sd))\<lparr>castle := Some sd\<rparr>"
proof -
  from genPseudo_cases[OF a m] show ?thesis
  proof
    assume "m \<in> set (pieceMoves s p r c fa)"
    from pieceMoves_castle[OF this] cs show ?thesis by simp
  next
    assume "\<exists>sd. piece_t p = King \<and> \<not> fa \<and> \<not> moved p \<and> \<not> inCheck s (piece_c p)
               \<and> canCastle s (piece_c p) sd
               \<and> m = (quiet r (c + 2 * stepOf sd))\<lparr>castle := Some sd\<rparr>"
    then obtain sd' where f: "piece_t p = King" "\<not> fa" "\<not> moved p" "\<not> inCheck s (piece_c p)"
      "canCastle s (piece_c p) sd'" and mm: "m = (quiet r (c + 2 * stepOf sd'))\<lparr>castle := Some sd'\<rparr>"
      by blast
    from mm cs have "sd' = sd" by simp
    with f mm show ?thesis by simp
  qed
qed


lemma attacksSquare_I:
  assumes c: "cell (board s) rr cc = Some p" and ib: "inBounds rr cc" and col: "piece_c p = clr"
    and m: "m \<in> set (pieceMoves s p rr cc True)" and t: "m_r m = r" "m_c m = c"
  shows "attacksSquare s clr r c"
proof -
  from c ib have a: "at (board s) rr cc = Some p" by (simp add: at_def)
  have g: "genPseudo s rr cc True = pieceMoves s p rr cc True" using a by (simp add: genPseudo_attack)
  have sq: "(rr, cc) \<in> set squares" using ib by (simp add: squares_iff)
  have "list_ex (\<lambda>x. m_r x = r \<and> m_c x = c) (genPseudo s rr cc True)"
    unfolding g list_ex_iff using m t by blast
  then have "(\<lambda>(rr, cc). case cell (board s) rr cc of None \<Rightarrow> False
        | Some p \<Rightarrow> if piece_c p \<noteq> clr then False
            else list_ex (\<lambda>x. m_r x = r \<and> m_c x = c) (genPseudo s rr cc True)) (rr, cc)"
    using c col by simp
  with sq show ?thesis unfolding attacksSquare.simps list_ex_iff by blast
qed

lemma rook_ray_kingside:
  assumes ib: "0 \<le> row \<and> row < 8" and e5: "cell b row 5 = None" and e6: "cell b row 6 = None"
  shows "quiet row 5 \<in> set (rays b clr row 7 rookDirs)"
proof -
  have "rayWalk b clr row 6 0 (-1) = quiet row 6 # rayWalk b clr row 5 0 (-1)"
    using ib e6 by (subst rayWalk.simps) (simp add: inBounds_def)
  moreover have "rayWalk b clr row 5 0 (-1) = quiet row 5 # rayWalk b clr row 4 0 (-1)"
    using ib e5 by (subst rayWalk.simps) (simp add: inBounds_def)
  ultimately have "quiet row 5 \<in> set (rayWalk b clr row (7 + -1) 0 (-1))" by simp
  then show ?thesis unfolding rays_def rookDirs_def by simp
qed

lemma rook_ray_queenside:
  assumes ib: "0 \<le> row \<and> row < 8" and e1: "cell b row 1 = None" and e2: "cell b row 2 = None"
    and e3: "cell b row 3 = None"
  shows "quiet row 3 \<in> set (rays b clr row 0 rookDirs)"
proof -
  have "rayWalk b clr row 1 0 1 = quiet row 1 # rayWalk b clr row 2 0 1"
    using ib e1 by (subst rayWalk.simps) (simp add: inBounds_def)
  moreover have "rayWalk b clr row 2 0 1 = quiet row 2 # rayWalk b clr row 3 0 1"
    using ib e2 by (subst rayWalk.simps) (simp add: inBounds_def)
  moreover have "rayWalk b clr row 3 0 1 = quiet row 3 # rayWalk b clr row 4 0 1"
    using ib e3 by (subst rayWalk.simps) (simp add: inBounds_def)
  ultimately have "quiet row 3 \<in> set (rayWalk b clr row (0 + 1) 0 1)" by simp
  then show ?thesis unfolding rays_def rookDirs_def by simp
qed

lemma canCastle_opposing_rook:
  assumes r: "at (board s) (homeRow clr) (rookCol sd) = Some rook" and c: "piece_c rook \<noteq> clr"
  shows "\<not> canCastle s clr sd"
proof
  assume cc: "canCastle s clr sd"
  let ?row = "homeRow clr"
  have ibrow: "0 \<le> ?row \<and> ?row < 8" by (simp add: homeRow_def)
  from canCastle_D[OF cc] r have ty: "piece_t rook = Rook"
    and em: "\<forall>col \<in> set (betweenCols sd). empty (board s) ?row col"
    and na: "\<forall>col \<in> set (pathCols sd). \<not> attacksSquare s (opposite clr) ?row col" by auto
  from r have ce: "cell (board s) ?row (rookCol sd) = Some rook" and ibr: "inBounds ?row (rookCol sd)"
    by (auto simp: at_def split: if_splits)
  from c have oc: "piece_c rook = opposite clr" by (cases clr; cases "piece_c rook") (auto simp: opposite_def)
  have pm: "pieceMoves s rook ?row (rookCol sd) True = rays (board s) (opposite clr) ?row (rookCol sd) rookDirs"
    using ty oc by (simp add: pieceMoves_def)
  have "quiet ?row (4 + stepOf sd) \<in> set (pieceMoves s rook ?row (rookCol sd) True)"
  proof (cases sd)
    case Kingside
    from em Kingside have "cell (board s) ?row 5 = None" "cell (board s) ?row 6 = None"
      by (auto simp: betweenCols_def empty_def split: if_splits)
    from rook_ray_kingside[OF ibrow this] show ?thesis
      unfolding pm using Kingside by (simp add: rookCol_def stepOf_def)
  next
    case Queenside
    from em Queenside have "cell (board s) ?row 1 = None" "cell (board s) ?row 2 = None"
      "cell (board s) ?row 3 = None"
      by (auto simp: betweenCols_def empty_def split: if_splits)
    from rook_ray_queenside[OF ibrow this] show ?thesis
      unfolding pm using Queenside by (simp add: rookCol_def stepOf_def)
  qed
  from attacksSquare_I[OF ce ibr oc this, of ?row "4 + stepOf sd"]
  have "attacksSquare s (opposite clr) ?row (4 + stepOf sd)" by (simp add: quiet_def)
  moreover have "4 + stepOf sd \<in> set (pathCols sd)" by (simp add: pathCols_def)
  ultimately show False using na by blast
qed

text \<open>
  The legality filter removes the castling move whose landing square is attacked: in the
  position with the black rook on g8 no move that \<^verbatim>\<open>genLegal\<close> returns for the king
  castles.
\<close>

lemma attacked_landing_filtered:
  "case genLegal attackedLandingPosition 7 4 of
     Inl e \<Rightarrow> False
   | Inr (ms, s) \<Rightarrow> list_all (\<lambda>m. castle m = None) ms"
  by code_simp








text \<open>
  With the black pawn on g2 the square f1 is empty, so no capture onto it is generated for
  the pawn: \<^verbatim>\<open>attacksSquare\<close> is false for f1, the castling move is generated, and
  \<^verbatim>\<open>genLegal\<close> keeps it.
\<close>

lemma pawn_beside_crossed_square:
  "(case at (board pawnBesidePathPosition) 6 6 of
      None \<Rightarrow> False | Some q \<Rightarrow> piece_t q = Pawn \<and> piece_c q = Black)
   \<and> empty (board pawnBesidePathPosition) 7 5
   \<and> \<not> attacksSquare pawnBesidePathPosition Black 7 5
   \<and> (quiet 7 6)\<lparr>castle := Some Kingside\<rparr> \<in> set (genPseudo pawnBesidePathPosition 7 4 False)
   \<and> (case genLegal pawnBesidePathPosition 7 4 of
        Inl e \<Rightarrow> False
      | Inr (ms, s) \<Rightarrow> (quiet 7 6)\<lparr>castle := Some Kingside\<rparr> \<in> set ms)"
  by code_simp

section \<open>The session between clicks\<close>

lemma canCastle_cong:
  assumes "board s = board s'" and "lastDouble s = lastDouble s'"
  shows "canCastle s clr sd = canCastle s' clr sd"
  unfolding canCastle.simps attacksSquare_cong[OF assms] assms(1) by simp

lemma genPseudo_cong:
  assumes "board s = board s'" and "lastDouble s = lastDouble s'"
  shows "genPseudo s r c fa = genPseudo s' r c fa"
  unfolding genPseudo.simps inCheck_cong[OF assms] canCastle_cong[OF assms]
    pieceMoves_cong[OF assms] assms(1) by simp

lemma wellFormed_cong:
  "board s = board s' \<Longrightarrow> lastDouble s = lastDouble s' \<Longrightarrow> wellFormed s = wellFormed s'"
  by (simp add: wellFormed_def)

lemma selectionOk_None: "selected s = None \<Longrightarrow> selectionOk s"
  by (simp add: selectionOk_def)

lemma selectionOk_I:
  assumes "selected s = Some (r, c)" and "at (board s) r c = Some p"
    and "set (legal s) \<subseteq> set (genPseudo s r c False)"
  shows "selectionOk s"
  using assms by (auto simp: selectionOk_def list_all_iff)

lemma selectionOk_D:
  assumes "selectionOk s" and "selected s = Some (r, c)"
  shows "(\<exists>p. at (board s) r c = Some p) \<and> set (legal s) \<subseteq> set (genPseudo s r c False)"
  using assms by (auto simp: selectionOk_def list_all_iff split: option.splits)

lemma selectionOk_cong:
  assumes b: "board s = board s'" and l: "lastDouble s = lastDouble s'"
    and se: "selected s = selected s'" and le: "legal s = legal s'"
  shows "selectionOk s = selectionOk s'"
proof (cases "selected s")
  case None
  with se show ?thesis by (simp add: selectionOk_def)
next
  case (Some sel)
  have "genPseudo s (fst sel) (snd sel) False = genPseudo s' (fst sel) (snd sel) False"
    using b l by (rule genPseudo_cong)
  with Some se b le show ?thesis by (simp add: selectionOk_def)
qed

lemma consistent_gameOver: "consistent s \<Longrightarrow> consistent (s\<lparr>gameOver := g\<rparr>)"
proof -
  assume c: "consistent s"
  have w: "wellFormed (s\<lparr>gameOver := g\<rparr>) = wellFormed s" by (rule wellFormed_cong) simp_all
  have so: "selectionOk (s\<lparr>gameOver := g\<rparr>) = selectionOk s" by (rule selectionOk_cong) simp_all
  from c show ?thesis unfolding consistent_def w so by simp
qed

lemma consistent_wellFormed: "consistent s \<Longrightarrow> wellFormed s"
  by (simp add: consistent_def)

lemma consistent_deselect:
  assumes c: "consistent s"
  shows "consistent (s\<lparr>selected := None, legal := []\<rparr>)"
proof -
  have w: "wellFormed (s\<lparr>selected := None, legal := []\<rparr>) = wellFormed s"
    by (rule wellFormed_cong) simp_all
  have so: "selectionOk (s\<lparr>selected := None, legal := []\<rparr>)" by (rule selectionOk_None) simp
  from c so show ?thesis unfolding consistent_def w by simp
qed

lemma render_consistent:
  assumes c: "consistent s"
  shows "\<exists>g. render s = Inr (s\<lparr>gameOver := g\<rparr>) \<and> consistent (s\<lparr>gameOver := g\<rparr>)"
  using render_total[OF consistent_wellFormed[OF c]] consistent_gameOver[OF c] by blast

lemma selectSquare_consistent:
  assumes c: "consistent s" and a: "at (board s) r c = Some p"
  shows "\<exists>ms g. selectSquare s r c = Inr (s\<lparr>selected := Some (r, c), legal := ms, gameOver := g\<rparr>)
           \<and> consistent (s\<lparr>selected := Some (r, c), legal := ms, gameOver := g\<rparr>)"
proof -
  let ?s1 = "s\<lparr>selected := Some (r, c)\<rparr>"
  have w1: "wellFormed ?s1" using consistent_wellFormed[OF c] wellFormed_cong[of ?s1 s] by simp
  from genLegal_total[OF w1] obtain ms where g: "genLegal ?s1 r c = Inr (ms, ?s1)" by blast
  let ?s2 = "?s1\<lparr>legal := ms\<rparr>"
  have gp: "genPseudo ?s2 r c False = genPseudo ?s1 r c False" by (rule genPseudo_cong) simp_all
  have w2: "wellFormed ?s2 = wellFormed s" by (rule wellFormed_cong) simp_all
  have sub: "set ms \<subseteq> set (genPseudo ?s1 r c False)" using genLegal_subset[OF g] .
  have so: "selectionOk ?s2"
    by (rule selectionOk_I[of _ r c p]) (use a sub gp in simp_all)
  have c2: "consistent ?s2"
    using c so unfolding consistent_def w2 by simp
  from render_consistent[OF c2] obtain gg where
    r: "render ?s2 = Inr (?s2\<lparr>gameOver := gg\<rparr>)" and cc: "consistent (?s2\<lparr>gameOver := gg\<rparr>)" by blast
  have "selectSquare s r c = Inr (?s2\<lparr>gameOver := gg\<rparr>)" using g r by (simp add: selectSquare_def)
  with cc show ?thesis by auto
qed

lemma applyMove_commit_total:
  assumes w: "wellFormed s" and a: "at (board s) r c = Some p"
    and m: "m \<in> set (genPseudo s r c False)"
    and lg: "turn s = Black \<longrightarrow> movesEl s \<noteq> []"
  shows "\<exists>s1. applyMove s \<lparr>mfrom = (r, c), mto = (m_r m, m_c m), meta = m\<rparr> False = Inr s1"
proof -
  from a have ib: "inBounds r c" by (auto simp: at_def split: if_splits)
  from w have wb: "wfBoard (board s)" by (simp add: wellFormed_def)
  from genPseudo_props[OF w a m] have ibt: "inBounds (m_r m) (m_c m)" and ne: "(m_r m, m_c m) \<noteq> (r, c)"
    and cs: "castle m = None \<or>
          (\<exists>sd. castle m = Some sd \<and> \<not> ep m \<and> m_r m = r \<and> c = 4
                \<and> m_c m = 4 + 2 * stepOf sd \<and> cell (board s) r (rookCol sd) \<noteq> None)" by auto
  from moveOnBoard_total[OF wb ib ibt ne cs, of p] obtain b' where
    b': "moveOnBoard (board s) p r c (m_r m) (m_c m) m = Inr b'" by blast
  let ?req = "\<lparr>mfrom = (r, c), mto = (m_r m, m_c m), meta = m\<rparr>"
  let ?s2 = "(recordCaptures s p ?req)\<lparr>board := b', lastDouble := newTarget p ?req\<rparr>"
  have t2: "turn ?s2 = turn s" and m2: "movesEl ?s2 = movesEl s"
    by (simp_all add: recordCaptures_fields)
  have "\<exists>s1. logMove ?s2 p (at (board s) (m_r m) (m_c m)) (m_r m, m_c m) m = Inr s1"
  proof (cases "turn s")
    case White
    then show ?thesis unfolding logMove_def t2 by simp
  next
    case Black
    with lg have "movesEl s \<noteq> []" by simp
    with Black show ?thesis unfolding logMove_def t2 m2 by simp
  qed
  then obtain s1 where "logMove ?s2 p (at (board s) (m_r m) (m_c m)) (m_r m, m_c m) m = Inr s1" by blast
  then have "applyMove s ?req False = Inr s1" using a b' by (simp add: applyMove_def Let_def)
  then show ?thesis by blast
qed

lemma wfSnapshot_snapshot:
  assumes "consistent s"
  shows "wfSnapshot (snapshot s)"
  using assms by (simp add: consistent_def wellFormed_def wfSnapshot_def snapshot_def)

lemma ownPiece_eq:
  "(case at (board s) r c of None \<Rightarrow> False | Some p \<Rightarrow> piece_c p = turn s) = ownPiece s r c"
  by (simp add: ownPiece_def)

lemma onSquareClick_commit:
  assumes c: "consistent s" and ng: "\<not> gameOver s" and sel: "selected s = Some (sr, sc)"
    and no: "\<not> ownPiece s r c"
    and f: "find (\<lambda>m. m_r m = r \<and> m_c m = c) (legal s) = Some mv"
  shows "\<exists>s1 g. applyMove (s\<lparr>history := history s @ [snapshot s]\<rparr>)
                   \<lparr>mfrom = (sr, sc), mto = (r, c), meta = mv\<rparr> False = Inr s1
          \<and> onSquareClick s r c
               = Inr (s1\<lparr>turn := opposite (turn s), selected := None, legal := [], gameOver := g\<rparr>)
          \<and> consistent (s1\<lparr>turn := opposite (turn s), selected := None, legal := [],
                            gameOver := g\<rparr>)"
proof -
  let ?s0 = "s\<lparr>history := history s @ [snapshot s]\<rparr>"
  from f have mvl: "mv \<in> set (legal s)" and tr: "m_r mv = r" and tc: "m_c mv = c"
    by (auto simp: find_Some_iff)
  from c have so: "selectionOk s" and w: "wellFormed s"
    and lg: "if turn s = Black then movesEl s \<noteq> [] else True"
    and hs: "list_all wfSnapshot (history s)" by (simp_all add: consistent_def)
  from selectionOk_D[OF so sel] obtain p where a: "at (board s) sr sc = Some p"
    and sub: "set (legal s) \<subseteq> set (genPseudo s sr sc False)" by blast
  have w0: "wellFormed ?s0" using w wellFormed_cong[of ?s0 s] by simp
  have g0: "genPseudo ?s0 sr sc False = genPseudo s sr sc False" by (rule genPseudo_cong) simp_all
  have m0: "mv \<in> set (genPseudo ?s0 sr sc False)" using mvl sub g0 by auto
  have a0: "at (board ?s0) sr sc = Some p" using a by simp
  have lg0: "turn ?s0 = Black \<longrightarrow> movesEl ?s0 \<noteq> []" using lg by (simp split: if_splits)
  from applyMove_commit_total[OF w0 a0 m0 lg0] tr tc obtain s1 where
    s1: "applyMove ?s0 \<lparr>mfrom = (sr, sc), mto = (r, c), meta = mv\<rparr> False = Inr s1" by auto
  from applyMove_fields[OF s1] have t1: "turn s1 = turn s"
    and h1: "history s1 = history s @ [snapshot s]" and ml: "movesEl s1 \<noteq> []" by auto
  have w1: "wellFormed s1" using applyMove_wellFormed[OF w0 s1] .
  let ?s3 = "s1\<lparr>turn := opposite (turn s1), selected := None, legal := []\<rparr>"
  have w3: "wellFormed ?s3" using w1 wellFormed_cong[of ?s3 s1] by simp
  have so3: "selectionOk ?s3" by (rule selectionOk_None) simp
  have c3: "consistent ?s3"
    unfolding consistent_def using w3 so3 ml h1 hs wfSnapshot_snapshot[OF c] by simp
  from render_consistent[OF c3] obtain g where
    r: "render ?s3 = Inr (?s3\<lparr>gameOver := g\<rparr>)" and cc: "consistent (?s3\<lparr>gameOver := g\<rparr>)" by blast
  have "onSquareClick s r c = Inr (?s3\<lparr>gameOver := g\<rparr>)"
    unfolding onSquareClick_def Let_def ownPiece_eq using ng sel no f s1 r by simp
  with s1 cc t1 show ?thesis by auto
qed

lemma onSquareClick_reject:
  assumes c: "consistent s" and ng: "\<not> gameOver s" and sel: "selected s = Some sq"
    and no: "\<not> ownPiece s r c"
    and f: "find (\<lambda>m. m_r m = r \<and> m_c m = c) (legal s) = None"
  shows "\<exists>g. onSquareClick s r c = Inr (s\<lparr>selected := None, legal := [], gameOver := g\<rparr>)
          \<and> consistent (s\<lparr>selected := None, legal := [], gameOver := g\<rparr>)"
proof -
  from render_consistent[OF consistent_deselect[OF c]] obtain g where
    r: "render (s\<lparr>selected := None, legal := []\<rparr>) = Inr (s\<lparr>selected := None, legal := [], gameOver := g\<rparr>)"
    and cc: "consistent (s\<lparr>selected := None, legal := [], gameOver := g\<rparr>)" by blast
  have "onSquareClick s r c = Inr (s\<lparr>selected := None, legal := [], gameOver := g\<rparr>)"
    unfolding onSquareClick_def Let_def ownPiece_eq using ng sel no f r by simp
  with cc show ?thesis by blast
qed

lemma onSquareClick_select:
  assumes c: "consistent s" and ng: "\<not> gameOver s" and own: "ownPiece s r c"
  shows "\<exists>ms g. onSquareClick s r c
                  = Inr (s\<lparr>selected := Some (r, c), legal := ms, gameOver := g\<rparr>)
          \<and> consistent (s\<lparr>selected := Some (r, c), legal := ms, gameOver := g\<rparr>)"
proof -
  from own obtain p where a: "at (board s) r c = Some p"
    by (auto simp: ownPiece_def split: option.splits)
  from selectSquare_consistent[OF c a] obtain ms g where
    ss: "selectSquare s r c = Inr (s\<lparr>selected := Some (r, c), legal := ms, gameOver := g\<rparr>)"
    and cc: "consistent (s\<lparr>selected := Some (r, c), legal := ms, gameOver := g\<rparr>)" by blast
  have "onSquareClick s r c = selectSquare s r c"
    unfolding onSquareClick_def Let_def ownPiece_eq using ng own by (simp split: option.splits)
  with ss cc show ?thesis by auto
qed

lemma onSquareClick_idle:
  assumes "gameOver s \<or> (selected s = None \<and> \<not> ownPiece s r c)"
  shows "onSquareClick s r c = Inr s"
  unfolding onSquareClick_def Let_def ownPiece_eq using assms by auto

lemma applyMove_evolves:
  assumes w: "wellFormed s" and a: "applyMove s m sim = Inr s'"
  shows "evolves (board s) (board s')"
proof -
  from applyMove_fields[OF a] obtain p b where
    b: "moveOnBoard (board s) p (fst (mfrom m)) (snd (mfrom m))
                 (fst (mto m)) (snd (mto m)) (meta m) = Inr b"
    and bs: "board s' = b" by blast
  from w have wb: "wfBoard (board s)" by (simp add: wellFormed_def)
  from moveOnBoard_evolves[OF wb b] bs show ?thesis by simp
qed

lemma onSquareClick_consistent:
  assumes c: "consistent s"
  shows "\<exists>s'. onSquareClick s r c = Inr s' \<and> consistent s' \<and> evolves (board s) (board s')"
proof -
  have wb: "wfBoard (board s)" using c by (simp add: consistent_def wellFormed_def)
  have refl: "evolves (board s) (board s)" using wb by (rule evolves_refl)
  show ?thesis
  proof (cases "gameOver s \<or> (selected s = None \<and> \<not> ownPiece s r c)")
    case True
    from onSquareClick_idle[OF True] c refl show ?thesis by simp
  next
    case False
    then have ng: "\<not> gameOver s" by simp
    show ?thesis
    proof (cases "ownPiece s r c")
      case True
      from onSquareClick_select[OF c ng True] refl show ?thesis by auto
    next
      case no: False
      with False obtain sr sc where sel: "selected s = Some (sr, sc)" by (cases "selected s") auto
      show ?thesis
      proof (cases "find (\<lambda>m. m_r m = r \<and> m_c m = c) (legal s)")
        case None
        from onSquareClick_reject[OF c ng sel no None] refl show ?thesis by auto
      next
        case (Some mv)
        from onSquareClick_commit[OF c ng sel no Some] obtain s1 g where
          a: "applyMove (s\<lparr>history := history s @ [snapshot s]\<rparr>)
                   \<lparr>mfrom = (sr, sc), mto = (r, c), meta = mv\<rparr> False = Inr s1"
          and o: "onSquareClick s r c
               = Inr (s1\<lparr>turn := opposite (turn s), selected := None, legal := [], gameOver := g\<rparr>)"
          and cc: "consistent (s1\<lparr>turn := opposite (turn s), selected := None, legal := [],
                            gameOver := g\<rparr>)" by blast
        have w0: "wellFormed (s\<lparr>history := history s @ [snapshot s]\<rparr>)"
          using consistent_wellFormed[OF c] wellFormed_cong[of "s\<lparr>history := history s @ [snapshot s]\<rparr>" s]
          by simp
        from applyMove_evolves[OF w0 a] have "evolves (board s) (board s1)" by simp
        with o cc show ?thesis by simp
      qed
    qed
  qed
qed

lemma clicks_consistent:
  "consistent s \<Longrightarrow> \<exists>s'. clicks s es = Inr s' \<and> consistent s' \<and> evolves (board s) (board s')"
proof (induction es arbitrary: s)
  case Nil
  then have "evolves (board s) (board s)" by (simp add: consistent_def wellFormed_def evolves_refl)
  with Nil show ?case by simp
next
  case (Cons sq es)
  from onSquareClick_consistent[OF Cons.prems, of "fst sq" "snd sq"] obtain s1 where
    o: "onSquareClick s (fst sq) (snd sq) = Inr s1" and c1: "consistent s1"
    and e1: "evolves (board s) (board s1)" by blast
  from Cons.IH[OF c1] obtain s' where k: "clicks s1 es = Inr s'" and c': "consistent s'"
    and e': "evolves (board s1) (board s')" by blast
  from o k have "clicks s (sq # es) = Inr s'" by simp
  with c' evolves_trans[OF e1 e'] show ?case by blast
qed

lemma undo_empty: "history s = [] \<Longrightarrow> undo s = Inr s"
  by (simp add: undo_def)

lemma undo_consistent:
  assumes c: "consistent s" and h: "history s \<noteq> []"
  shows "\<exists>g. undo s = Inr ((restoreSnapshot (s\<lparr>history := butlast (history s)\<rparr>) (last (history s)))
                              \<lparr>selected := None, legal := [], gameOver := g\<rparr>)
          \<and> consistent ((restoreSnapshot (s\<lparr>history := butlast (history s)\<rparr>) (last (history s)))
                              \<lparr>selected := None, legal := [], gameOver := g\<rparr>)"
proof -
  let ?sn = "last (history s)"
  let ?s1 = "(restoreSnapshot (s\<lparr>history := butlast (history s)\<rparr>) ?sn)
               \<lparr>gameOver := False, selected := None, legal := []\<rparr>"
  from c have hs: "list_all wfSnapshot (history s)" by (simp add: consistent_def)
  with h have ws: "wfSnapshot ?sn" by (simp add: list_all_iff)
  from hs have hb: "list_all wfSnapshot (butlast (history s))"
    by (auto simp: list_all_iff dest: in_set_butlastD)
  have so: "selectionOk ?s1" by (rule selectionOk_None) simp
  have c1: "consistent ?s1"
    unfolding consistent_def using ws hb so
    by (simp add: restoreSnapshot_def wfSnapshot_def wellFormed_def)
  from render_consistent[OF c1] obtain g where
    r: "render ?s1 = Inr (?s1\<lparr>gameOver := g\<rparr>)" and cc: "consistent (?s1\<lparr>gameOver := g\<rparr>)" by blast
  have eq: "?s1\<lparr>gameOver := g\<rparr> = (restoreSnapshot (s\<lparr>history := butlast (history s)\<rparr>) ?sn)
                              \<lparr>selected := None, legal := [], gameOver := g\<rparr>" by simp
  have "undo s = Inr (?s1\<lparr>gameOver := g\<rparr>)" using h r by (simp add: undo_def)
  with cc show ?thesis unfolding eq by blast
qed

lemma undos_drain:
  "consistent s \<Longrightarrow> length (history s) = n \<Longrightarrow>
   \<exists>s'. undos n s = Inr s' \<and> history s' = [] \<and> consistent s'"
proof (induction n arbitrary: s)
  case 0
  then show ?case by simp
next
  case (Suc n)
  then have h: "history s \<noteq> []" by auto
  from undo_consistent[OF Suc.prems(1) h] obtain g where
    u: "undo s = Inr ((restoreSnapshot (s\<lparr>history := butlast (history s)\<rparr>) (last (history s)))
                              \<lparr>selected := None, legal := [], gameOver := g\<rparr>)"
    and c1: "consistent ((restoreSnapshot (s\<lparr>history := butlast (history s)\<rparr>) (last (history s)))
                              \<lparr>selected := None, legal := [], gameOver := g\<rparr>)" by blast
  let ?s1 = "(restoreSnapshot (s\<lparr>history := butlast (history s)\<rparr>) (last (history s)))
                              \<lparr>selected := None, legal := [], gameOver := g\<rparr>"
  have "history ?s1 = butlast (history s)" by (simp add: restoreSnapshot_def)
  then have "length (history ?s1) = n" using Suc.prems(2) by simp
  from Suc.IH[OF c1 this] obtain s' where "undos n ?s1 = Inr s'" "history s' = []" "consistent s'"
    by blast
  with u show ?case by simp
qed

lemma startBoard:
  "loadRows emptyBoard idx8 (splitOn CHR ''/'' (hd (splitOn CHR '' '' initialFEN)))
     = Inr (board startPosition)"
  by code_simp

lemma startBoard_wf: "wfBoard (board startPosition) \<and> kingsHome (board startPosition)"
  by code_simp

lemma loadFEN_initial:
  "loadFEN s initialFEN
     = Inr (s\<lparr>board := board startPosition, lastDouble := None, byWhite := [], byBlack := []\<rparr>)"
  by (simp add: loadFEN_def startBoard)

lemma fresh_game_consistent:
  assumes b: "board s = board startPosition" and l: "lastDouble s = None" and t: "turn s = White"
    and se: "selected s = None" and h: "history s = []"
  shows "consistent s"
proof -
  have "wellFormed s" using b l startBoard_wf by (simp add: wellFormed_def targetOk_def)
  moreover have "selectionOk s" using se by (rule selectionOk_None)
  ultimately show ?thesis using t h by (simp add: consistent_def)
qed

lemma init_consistent: "\<exists>s. init page = Inr s \<and> consistent s"
proof -
  let ?s = "(globals page)\<lparr>board := board startPosition, lastDouble := None, byWhite := [],
              byBlack := [], turn := White, selected := None, legal := [], gameOver := False,
              history := []\<rparr>"
  have c: "consistent ?s" by (rule fresh_game_consistent) simp_all
  from render_consistent[OF c] obtain g where "render ?s = Inr (?s\<lparr>gameOver := g\<rparr>)"
    and "consistent (?s\<lparr>gameOver := g\<rparr>)" by blast
  then show ?thesis by (simp add: init_def loadFEN_initial)
qed

lemma newGame_consistent: "\<exists>s'. newGame s = Inr s' \<and> consistent s'"
proof -
  let ?s = "s\<lparr>board := board startPosition, lastDouble := None, byWhite := [],
              byBlack := [], movesEl := [], turn := White, selected := None, legal := [],
              lastDouble := None, gameOver := False, history := []\<rparr>"
  have c: "consistent ?s" by (rule fresh_game_consistent) simp_all
  from render_consistent[OF c] obtain g where "render ?s = Inr (?s\<lparr>gameOver := g\<rparr>)"
    and "consistent (?s\<lparr>gameOver := g\<rparr>)" by blast
  then show ?thesis by (simp add: newGame_def loadFEN_initial)
qed

lemma reachable_consistent: "reachable s \<Longrightarrow> consistent s"
proof (induction rule: reachable.induct)
  case (start page s)
  with init_consistent[of page] show ?case by auto
next
  case (click s r c s')
  with onSquareClick_consistent[of s r c] show ?case by auto
next
  case (undone s s')
  show ?case
  proof (cases "history s = []")
    case True
    with undone show ?thesis by (simp add: undo_empty)
  next
    case False
    from undo_consistent[OF undone.IH False] undone.hyps(2) show ?thesis by auto
  qed
next
  case (restart s s')
  with newGame_consistent[of s] show ?case by auto
qed

lemma onSquareClick_outcome:
  assumes c: "consistent s" and o: "onSquareClick s r c = Inr s'"
  shows "(history s' = history s \<and> board s' = board s \<and> turn s' = turn s
          \<and> lastDouble s' = lastDouble s \<and> byWhite s' = byWhite s \<and> byBlack s' = byBlack s
          \<and> movesEl s' = movesEl s)
       \<or> (\<exists>sr sc mv p. \<not> gameOver s \<and> selected s = Some (sr, sc) \<and> \<not> ownPiece s r c
            \<and> find (\<lambda>m. m_r m = r \<and> m_c m = c) (legal s) = Some mv
            \<and> at (board s) sr sc = Some p
            \<and> history s' = history s @ [snapshot s]
            \<and> lastDouble s' = newTarget p \<lparr>mfrom = (sr, sc), mto = (r, c), meta = mv\<rparr>
            \<and> turn s' = opposite (turn s))"
proof (cases "gameOver s \<or> (selected s = None \<and> \<not> ownPiece s r c)")
  case True
  from onSquareClick_idle[OF True] o show ?thesis by simp
next
  case False
  then have ng: "\<not> gameOver s" by simp
  show ?thesis
  proof (cases "ownPiece s r c")
    case True
    from onSquareClick_select[OF c ng True] o show ?thesis by auto
  next
    case no: False
    with False obtain sr sc where sel: "selected s = Some (sr, sc)" by (cases "selected s") auto
    show ?thesis
    proof (cases "find (\<lambda>m. m_r m = r \<and> m_c m = c) (legal s)")
      case None
      from onSquareClick_reject[OF c ng sel no None] o show ?thesis by auto
    next
      case (Some mv)
      from onSquareClick_commit[OF c ng sel no Some] obtain s1 g where
        a: "applyMove (s\<lparr>history := history s @ [snapshot s]\<rparr>)
                 \<lparr>mfrom = (sr, sc), mto = (r, c), meta = mv\<rparr> False = Inr s1"
        and o': "onSquareClick s r c
             = Inr (s1\<lparr>turn := opposite (turn s), selected := None, legal := [], gameOver := g\<rparr>)"
        by blast
      from applyMove_fields[OF a] obtain p where "at (board s) sr sc = Some p"
        and "lastDouble s1 = newTarget p \<lparr>mfrom = (sr, sc), mto = (r, c), meta = mv\<rparr>"
        and "history s1 = history s @ [snapshot s]" by auto
      with o o' ng sel no Some show ?thesis by auto
    qed
  qed
qed

section \<open>What the handlers leave behind\<close>

text \<open>
  The legality filter, the status evaluation and \<^verbatim>\<open>render\<close> read the board, the
  en-passant target and the turn only, so their answers carry over to a session that
  agrees on these.
\<close>

lemma applyMove_simulate_cong:
  assumes b: "board s' = board s" and l: "lastDouble s' = lastDouble s"
    and a: "applyMove s m True = Inr s1"
  shows "\<exists>s1'. applyMove s' m True = Inr s1' \<and> board s1' = board s1 \<and> lastDouble s1' = lastDouble s1"
proof -
  from a obtain p bb where p: "at (board s) (fst (mfrom m)) (snd (mfrom m)) = Some p"
    and bb: "moveOnBoard (board s) p (fst (mfrom m)) (snd (mfrom m))
                 (fst (mto m)) (snd (mto m)) (meta m) = Inr bb"
    and s1: "s1 = s\<lparr>board := bb, lastDouble := newTarget p m\<rparr>"
    by (auto simp: applyMove_simulate split: option.splits sum.splits)
  have "applyMove s' m True = Inr (s'\<lparr>board := bb, lastDouble := newTarget p m\<rparr>)"
    using p bb b by (simp add: applyMove_simulate)
  with s1 show ?thesis by simp
qed

lemma legalLoop_succeeds_D:
  "legalLoop s r c clr ms = Inr (res, s2) \<Longrightarrow> m \<in> set ms \<Longrightarrow>
   \<exists>s1. applyMove s \<lparr>mfrom = (r, c), mto = (m_r m, m_c m), meta = m\<rparr> True = Inr s1"
proof (induction ms arbitrary: res s2)
  case Nil
  then show ?case by simp
next
  case (Cons x xs)
  from Cons.prems(1) obtain s1 where
    s1: "applyMove s \<lparr>mfrom = (r, c), mto = (m_r x, m_c x), meta = x\<rparr> True = Inr s1"
    by (auto split: sum.splits)
  have rs: "restoreSnapshot s1 (snapshot s) = s" using applyMove_simulate_restore[OF s1] .
  from Cons.prems(1) s1 rs obtain rest s3 where rest: "legalLoop s r c clr xs = Inr (rest, s3)"
    by (auto split: sum.splits)
  show ?case
  proof (cases "m = x")
    case True
    with s1 show ?thesis by blast
  next
    case False
    with Cons.prems(2) have "m \<in> set xs" by simp
    from Cons.IH[OF rest this] show ?thesis .
  qed
qed

lemma legalLoop_cong:
  assumes b: "board s' = board s" and l: "lastDouble s' = lastDouble s"
    and g: "legalLoop s r c clr ms = Inr (res, s2)"
  shows "legalLoop s' r c clr ms = Inr (res, s')"
proof -
  let ?req = "\<lambda>m. \<lparr>mfrom = (r, c), mto = (m_r m, m_c m), meta = m\<rparr>"
  have ok: "\<And>m. m \<in> set ms \<Longrightarrow> \<exists>s1'. applyMove s' (?req m) True = Inr s1'"
  proof -
    fix m assume "m \<in> set ms"
    from legalLoop_succeeds_D[OF g this] obtain s1 where "applyMove s (?req m) True = Inr s1" by blast
    from applyMove_simulate_cong[OF b l this] show "\<exists>s1'. applyMove s' (?req m) True = Inr s1'"
      by blast
  qed
  from legalLoop_total[of ms s' r c clr, OF ok] obtain res' where
    g': "legalLoop s' r c clr ms = Inr (res', s')" by blast
  have same: "\<And>m. m \<in> set ms \<Longrightarrow>
      (case applyMove s (?req m) True of Inl e \<Rightarrow> False | Inr s1 \<Rightarrow> \<not> inCheck s1 clr)
    = (case applyMove s' (?req m) True of Inl e \<Rightarrow> False | Inr s1 \<Rightarrow> \<not> inCheck s1 clr)"
  proof -
    fix m assume "m \<in> set ms"
    from legalLoop_succeeds_D[OF g this] obtain s1 where s1: "applyMove s (?req m) True = Inr s1" by blast
    from applyMove_simulate_cong[OF b l s1] obtain s1' where s1': "applyMove s' (?req m) True = Inr s1'"
      and e: "board s1' = board s1" "lastDouble s1' = lastDouble s1" by blast
    have "inCheck s1' clr = inCheck s1 clr" using e by (rule inCheck_cong)
    with s1 s1' show "(case applyMove s (?req m) True of Inl e \<Rightarrow> False | Inr s1 \<Rightarrow> \<not> inCheck s1 clr)
    = (case applyMove s' (?req m) True of Inl e \<Rightarrow> False | Inr s1 \<Rightarrow> \<not> inCheck s1 clr)" by simp
  qed
  from legalLoop_frame[OF g] have "res = filter (\<lambda>m. case applyMove s (?req m) True of
       Inl e \<Rightarrow> False | Inr s1 \<Rightarrow> \<not> inCheck s1 clr) ms" by simp
  moreover from legalLoop_frame[OF g'] have "res' = filter (\<lambda>m. case applyMove s' (?req m) True of
       Inl e \<Rightarrow> False | Inr s1 \<Rightarrow> \<not> inCheck s1 clr) ms" by simp
  ultimately have "res' = res" using same by (simp cong: filter_cong)
  with g' show ?thesis by simp
qed

lemma genLegal_cong:
  assumes b: "board s' = board s" and l: "lastDouble s' = lastDouble s"
    and g: "genLegal s r c = Inr (ms, s2)"
  shows "genLegal s' r c = Inr (ms, s')"
proof (cases "at (board s) r c")
  case None
  with g b show ?thesis by (simp add: genLegal_def)
next
  case (Some p)
  with g have "legalLoop s r c (piece_c p) (genPseudo s r c False) = Inr (ms, s2)"
    by (simp add: genLegal_def)
  from legalLoop_cong[OF b l this] have "legalLoop s' r c (piece_c p) (genPseudo s r c False) = Inr (ms, s')" .
  moreover have "genPseudo s' r c False = genPseudo s r c False" using b l by (rule genPseudo_cong)
  ultimately show ?thesis using Some b by (simp add: genLegal_def)
qed

lemma anyLoop_cong:
  assumes b: "board s' = board s" and l: "lastDouble s' = lastDouble s"
  shows "anyLoop s clr sqs = Inr (res, s2) \<Longrightarrow> anyLoop s' clr sqs = Inr (res, s')"
proof (induction sqs)
  case Nil
  then show ?case by simp
next
  case (Cons sq sqs)
  show ?case
  proof (cases "at (board s) (fst sq) (snd sq)")
    case None
    with Cons.prems have "anyLoop s clr sqs = Inr (res, s2)" by simp
    from Cons.IH[OF this] None b show ?thesis by simp
  next
    case (Some p)
    show ?thesis
    proof (cases "piece_c p \<noteq> clr")
      case True
      with Some Cons.prems have "anyLoop s clr sqs = Inr (res, s2)" by simp
      from Cons.IH[OF this] Some True b show ?thesis by simp
    next
      case False
      with Some Cons.prems obtain leg s1 where g: "genLegal s (fst sq) (snd sq) = Inr (leg, s1)"
        and r: "(if leg \<noteq> [] then Inr (True, s1) else anyLoop s1 clr sqs) = Inr (res, s2)"
        by (auto split: sum.splits)
      from genLegal_frame[OF g] have s1: "s1 = s" .
      from genLegal_cong[OF b l g] have g': "genLegal s' (fst sq) (snd sq) = Inr (leg, s')" .
      show ?thesis
      proof (cases "leg = []")
        case True
        with r s1 have "anyLoop s clr sqs = Inr (res, s2)" by simp
        from Cons.IH[OF this] Some False g' True b show ?thesis by simp
      next
        case nonempty: False
        with r have "res = True" by simp
        with Some False g' nonempty b show ?thesis by simp
      qed
    qed
  qed
qed

lemma gameStatus_cong:
  assumes b: "board s' = board s" and l: "lastDouble s' = lastDouble s"
    and g: "gameStatus s clr = Inr (st, s2)"
  shows "gameStatus s' clr = Inr (st, s')"
proof -
  from g obtain hm where a: "anyLoop s clr squares = Inr (hm, s2)"
    and st: "st = (if hm then Ongoing else if inCheck s2 clr then Checkmate else Stalemate)"
    by (auto simp: gameStatus_def anyLegalMove_def split: sum.splits)
  from anyLoop_frame[OF a] have s2: "s2 = s" .
  from anyLoop_cong[OF b l a] have a': "anyLoop s' clr squares = Inr (hm, s')" .
  have "inCheck s' clr = inCheck s clr" using b l by (rule inCheck_cong)
  with a' st s2 show ?thesis by (simp add: gameStatus_def anyLegalMove_def)
qed

lemma render_cong:
  assumes b: "board s' = board s" and l: "lastDouble s' = lastDouble s" and t: "turn s' = turn s"
    and r: "render s = Inr s2"
  shows "render s' = Inr (s'\<lparr>gameOver := gameOver s2\<rparr>)"
proof -
  from r obtain st s1 where g: "gameStatus s (turn s) = Inr (st, s1)"
    and s2: "s2 = s1\<lparr>gameOver := (st \<noteq> Ongoing)\<rparr>"
    by (auto simp: render_def split: sum.splits)
  from gameStatus_cong[OF b l g] t have "gameStatus s' (turn s') = Inr (st, s')" by simp
  with s2 show ?thesis by (simp add: render_def)
qed

lemma render_idem:
  assumes r: "render s = Inr s2"
  shows "render s2 = Inr s2"
proof -
  from render_frame[OF r] obtain g where s2: "s2 = s\<lparr>gameOver := g\<rparr>" by blast
  have "render s2 = Inr (s2\<lparr>gameOver := gameOver s2\<rparr>)"
    by (rule render_cong[OF _ _ _ r]) (simp_all add: s2)
  then show ?thesis by simp
qed

text \<open>
  Every handler that changes the session ends with \<^verbatim>\<open>render\<close>, and \<^verbatim>\<open>selectSquare\<close> stores
  the list of \<^verbatim>\<open>genLegal\<close>: every reachable session is settled.
\<close>

lemma settled_consistent: "settled s \<Longrightarrow> consistent s"
  by (simp add: settled_def)

lemma settled_render: "settled s \<Longrightarrow> render s = Inr s"
  by (simp add: settled_def)

lemma settled_legal: "settled s \<Longrightarrow> selected s = Some (r, c) \<Longrightarrow> genLegal s r c = Inr (legal s, s)"
  by (simp add: settled_def)

lemma settled_rendered:
  assumes c: "consistent s'" and r: "render x = Inr s'" and n: "selected s' = None"
  shows "settled s'"
  using c render_idem[OF r] n by (simp add: settled_def)

lemma render_settled_cong:
  assumes st: "settled s" and b: "board s' = board s" and l: "lastDouble s' = lastDouble s"
    and t: "turn s' = turn s" and g: "gameOver s' = gameOver s"
  shows "render s' = Inr s'"
proof -
  from render_cong[OF b l t settled_render[OF st]] have "render s' = Inr (s'\<lparr>gameOver := gameOver s\<rparr>)" .
  moreover have "s'\<lparr>gameOver := gameOver s\<rparr> = s'" using g by simp
  ultimately show ?thesis by simp
qed

lemma selectSquare_result:
  assumes ss: "selectSquare s r c = Inr s'"
  shows "\<exists>ms g. genLegal s r c = Inr (ms, s) \<and> genLegal s' r c = Inr (ms, s')
          \<and> render s' = Inr s' \<and> s' = s\<lparr>selected := Some (r, c), legal := ms, gameOver := g\<rparr>"
proof -
  let ?s1 = "s\<lparr>selected := Some (r, c)\<rparr>"
  from ss obtain ms s1 where g: "genLegal ?s1 r c = Inr (ms, s1)"
    and r: "render (s1\<lparr>legal := ms\<rparr>) = Inr s'"
    by (auto simp: selectSquare_def split: sum.splits)
  from genLegal_frame[OF g] have s1: "s1 = ?s1" .
  from render_frame[OF r] s1 obtain gg where
    s': "s' = s\<lparr>selected := Some (r, c), legal := ms, gameOver := gg\<rparr>" by auto
  have g0: "genLegal s r c = Inr (ms, s)" by (rule genLegal_cong[OF _ _ g]) simp_all
  have g1: "genLegal s' r c = Inr (ms, s')" by (rule genLegal_cong[OF _ _ g]) (simp_all add: s')
  from g0 g1 render_idem[OF r] s' show ?thesis by blast
qed

lemma selectSquare_settled:
  assumes c: "consistent s" and a: "at (board s) r c = Some p" and ss: "selectSquare s r c = Inr s'"
  shows "settled s'"
proof -
  from selectSquare_consistent[OF c a] ss have c': "consistent s'" by auto
  from selectSquare_result[OF ss] obtain ms g where g: "genLegal s' r c = Inr (ms, s')"
    and r: "render s' = Inr s'"
    and e: "s' = s\<lparr>selected := Some (r, c), legal := ms, gameOver := g\<rparr>" by blast
  from e have "selected s' = Some (r, c)" and "legal s' = ms" by simp_all
  with c' g r show ?thesis by (simp add: settled_def)
qed

lemma onSquareClick_settled:
  assumes st: "settled s" and o: "onSquareClick s r c = Inr s'"
  shows "settled s'"
proof (cases "gameOver s \<or> (selected s = None \<and> \<not> ownPiece s r c)")
  case True
  from onSquareClick_idle[OF True] o st show ?thesis by simp
next
  case False
  then have ng: "\<not> gameOver s" by simp
  note c = settled_consistent[OF st]
  from onSquareClick_consistent[OF c, of r c] o have c': "consistent s'" by auto
  show ?thesis
  proof (cases "ownPiece s r c")
    case True
    then obtain p where a: "at (board s) r c = Some p"
      by (auto simp: ownPiece_def split: option.splits)
    have "onSquareClick s r c = selectSquare s r c"
      unfolding onSquareClick_def Let_def ownPiece_eq using ng True by (simp split: option.splits)
    with o have "selectSquare s r c = Inr s'" by simp
    from selectSquare_settled[OF c a this] show ?thesis .
  next
    case no: False
    with False obtain sr sc where sel: "selected s = Some (sr, sc)" by (cases "selected s") auto
    show ?thesis
    proof (cases "find (\<lambda>m. m_r m = r \<and> m_c m = c) (legal s)")
      case None
      have "onSquareClick s r c = render (s\<lparr>selected := None, legal := []\<rparr>)"
        unfolding onSquareClick_def Let_def ownPiece_eq using ng sel no None by simp
      with o have r: "render (s\<lparr>selected := None, legal := []\<rparr>) = Inr s'" by simp
      from render_frame[OF r] have "selected s' = None" by auto
      from settled_rendered[OF c' r this] show ?thesis .
    next
      case (Some mv)
      from onSquareClick_commit[OF c ng sel no Some] obtain s1 where
        a: "applyMove (s\<lparr>history := history s @ [snapshot s]\<rparr>)
                 \<lparr>mfrom = (sr, sc), mto = (r, c), meta = mv\<rparr> False = Inr s1" by blast
      have "onSquareClick s r c
              = render (s1\<lparr>turn := opposite (turn s1), selected := None, legal := []\<rparr>)"
        unfolding onSquareClick_def Let_def ownPiece_eq using ng sel no Some a by simp
      with o have r: "render (s1\<lparr>turn := opposite (turn s1), selected := None, legal := []\<rparr>) = Inr s'"
        by simp
      from render_frame[OF r] have "selected s' = None" by auto
      from settled_rendered[OF c' r this] show ?thesis .
    qed
  qed
qed

lemma undo_settled:
  assumes st: "settled s" and u: "undo s = Inr s'"
  shows "settled s'"
proof (cases "history s = []")
  case True
  with u st show ?thesis by (simp add: undo_empty)
next
  case False
  from undo_consistent[OF settled_consistent[OF st] False] u have c': "consistent s'" by auto
  from u False have r: "render ((restoreSnapshot (s\<lparr>history := butlast (history s)\<rparr>) (last (history s)))
                     \<lparr>gameOver := False, selected := None, legal := []\<rparr>) = Inr s'"
    by (simp add: undo_def)
  from render_frame[OF r] have "selected s' = None" by auto
  from settled_rendered[OF c' r this] show ?thesis .
qed

lemma init_settled:
  assumes i: "init page = Inr s"
  shows "settled s"
proof -
  from init_consistent[of page] i have c: "consistent s" by auto
  from i have r: "render ((globals page)\<lparr>board := board startPosition, lastDouble := None,
              byWhite := [], byBlack := [], turn := White, selected := None, legal := [],
              gameOver := False, history := []\<rparr>) = Inr s"
    by (simp add: init_def loadFEN_initial)
  from render_frame[OF r] have "selected s = None" by auto
  from settled_rendered[OF c r this] show ?thesis .
qed

lemma newGame_settled:
  assumes n: "newGame s = Inr s'"
  shows "settled s'"
proof -
  from newGame_consistent[of s] n have c: "consistent s'" by auto
  from n have r: "render (s\<lparr>board := board startPosition, lastDouble := None, byWhite := [],
              byBlack := [], movesEl := [], turn := White, selected := None, legal := [],
              lastDouble := None, gameOver := False, history := []\<rparr>) = Inr s'"
    by (simp add: newGame_def loadFEN_initial)
  from render_frame[OF r] have "selected s' = None" by auto
  from settled_rendered[OF c r this] show ?thesis .
qed

lemma reachable_settled: "reachable s \<Longrightarrow> settled s"
proof (induction rule: reachable.induct)
  case (start page s)
  then show ?case by (rule init_settled)
next
  case (click s r c s')
  from onSquareClick_settled[OF click.IH click.hyps(2)] show ?case .
next
  case (undone s s')
  from undo_settled[OF undone.IH undone.hyps(2)] show ?case .
next
  case (restart s s')
  from newGame_settled[OF restart.hyps(2)] show ?case .
qed

lemma reachable_legal:
  assumes "reachable s" and "selected s = Some (r, c)"
  shows "genLegal s r c = Inr (legal s, s)"
  using settled_legal[OF reachable_settled[OF assms(1)] assms(2)] .

lemma reachable_selectedE2: "reachable selectedE2"
proof -
  have "case init [] of Inl e \<Rightarrow> False | Inr s \<Rightarrow>
          (case onSquareClick s 6 4 of Inl e \<Rightarrow> False | Inr s' \<Rightarrow> s' = selectedE2)"
    by code_simp
  then obtain s where i: "init [] = Inr s" and o: "onSquareClick s 6 4 = Inr selectedE2"
    by (cases "init []"; cases "onSquareClick (projr (init [])) 6 4") simp_all
  from reachable.click[OF reachable.start[OF i] o] show ?thesis .
qed

section \<open>Double pushes and en-passant captures\<close>

lemma pieceMoves_double:
  assumes m: "m \<in> set (pieceMoves s p r c fa)" and d: "double m"
  shows "piece_t p = Pawn \<and> \<not> fa \<and> r = pawnStart (piece_c p) \<and> m_c m = c
         \<and> m_r m = r + 2 * pawnDir (piece_c p)"
proof (cases "piece_t p")
  case Pawn
  with m have "m \<in> set (pawnMoves (board s) (lastDouble s) (piece_c p) r c fa)"
    by (simp add: pieceMoves_def)
  from pawnMoves_double[OF this d] Pawn show ?thesis by simp
next
  case Knight
  with m have "m \<in> set (steps (board s) (piece_c p) r c knightDeltas)" by (simp add: pieceMoves_def)
  from steps_props[OF this] d show ?thesis by simp
next
  case King
  with m have "m \<in> set (steps (board s) (piece_c p) r c kingDeltas)" by (simp add: pieceMoves_def)
  from steps_props[OF this] d show ?thesis by simp
next
  case Bishop
  with m have "m \<in> set (rays (board s) (piece_c p) r c bishopDirs)" by (simp add: pieceMoves_def)
  from rays_props[OF this] d show ?thesis by simp
next
  case Rook
  with m have "m \<in> set (rays (board s) (piece_c p) r c rookDirs)" by (simp add: pieceMoves_def)
  from rays_props[OF this] d show ?thesis by simp
next
  case Queen
  with m have "m \<in> set (rays (board s) (piece_c p) r c (bishopDirs @ rookDirs))" by (simp add: pieceMoves_def)
  from rays_props[OF this] d show ?thesis by simp
qed

lemma pieceMoves_ep:
  assumes m: "m \<in> set (pieceMoves s p r c fa)" and e: "ep m"
  shows "piece_t p = Pawn
         \<and> (\<exists>l. lastDouble s = Some l \<and> ld_r l = r \<and> \<bar>ld_c l - c\<bar> = 1 \<and> m_c m = ld_c l)"
proof (cases "piece_t p")
  case Pawn
  with m have "m \<in> set (pawnMoves (board s) (lastDouble s) (piece_c p) r c fa)"
    by (simp add: pieceMoves_def)
  from pawnMoves_ep[OF this e] Pawn show ?thesis by auto
next
  case Knight
  with m have "m \<in> set (steps (board s) (piece_c p) r c knightDeltas)" by (simp add: pieceMoves_def)
  from steps_props[OF this] e show ?thesis by simp
next
  case King
  with m have "m \<in> set (steps (board s) (piece_c p) r c kingDeltas)" by (simp add: pieceMoves_def)
  from steps_props[OF this] e show ?thesis by simp
next
  case Bishop
  with m have "m \<in> set (rays (board s) (piece_c p) r c bishopDirs)" by (simp add: pieceMoves_def)
  from rays_props[OF this] e show ?thesis by simp
next
  case Rook
  with m have "m \<in> set (rays (board s) (piece_c p) r c rookDirs)" by (simp add: pieceMoves_def)
  from rays_props[OF this] e show ?thesis by simp
next
  case Queen
  with m have "m \<in> set (rays (board s) (piece_c p) r c (bishopDirs @ rookDirs))" by (simp add: pieceMoves_def)
  from rays_props[OF this] e show ?thesis by simp
qed

lemma genPseudo_ep:
  assumes m: "m \<in> set (genPseudo s r c fa)" and e: "ep m"
  shows "\<exists>l. lastDouble s = Some l \<and> ld_r l = r \<and> \<bar>ld_c l - c\<bar> = 1 \<and> m_c m = ld_c l"
proof (cases "at (board s) r c")
  case None
  with m show ?thesis by (simp add: genPseudo_None)
next
  case (Some p)
  from genPseudo_cases[OF Some m] show ?thesis
  proof
    assume "m \<in> set (pieceMoves s p r c fa)"
    from pieceMoves_ep[OF this e] show ?thesis by simp
  next
    assume "\<exists>sd. piece_t p = King \<and> \<not> fa \<and> \<not> moved p \<and> \<not> inCheck s (piece_c p)
               \<and> canCastle s (piece_c p) sd
               \<and> m = (quiet r (c + 2 * stepOf sd))\<lparr>castle := Some sd\<rparr>"
    with e show ?thesis by (auto simp: quiet_def)
  qed
qed

lemma genPseudo_double:
  assumes a: "at (board s) r c = Some p" and m: "m \<in> set (genPseudo s r c fa)" and d: "double m"
  shows "piece_t p = Pawn \<and> r = pawnStart (piece_c p) \<and> m_c m = c
         \<and> m_r m = r + 2 * pawnDir (piece_c p)"
proof -
  from genPseudo_cases[OF a m] show ?thesis
  proof
    assume "m \<in> set (pieceMoves s p r c fa)"
    from pieceMoves_double[OF this d] show ?thesis by simp
  next
    assume "\<exists>sd. piece_t p = King \<and> \<not> fa \<and> \<not> moved p \<and> \<not> inCheck s (piece_c p)
               \<and> canCastle s (piece_c p) sd
               \<and> m = (quiet r (c + 2 * stepOf sd))\<lparr>castle := Some sd\<rparr>"
    with d show ?thesis by (auto simp: quiet_def)
  qed
qed

section \<open>Pieces that have never moved\<close>

lemma homeRow_inj: "homeRow a = homeRow b \<Longrightarrow> a = b"
  by (cases a; cases b) (simp_all add: homeRow_def)

lemma stale_at_evolves:
  assumes e: "evolves b b'" and a: "at b' r c = Some q" and u: "\<not> moved q"
  shows "at b r c = Some q"
proof -
  from a have ib: "inBounds r c" and ce: "cell b' r c = Some q" by (auto simp: at_def split: if_splits)
  from e ib have "cell b' r c = cell b r c \<or> stale (cell b' r c)" by (simp add: evolves_def)
  with ce u have "cell b r c = Some q" by (auto simp: stale_def)
  with ib show ?thesis by (simp add: at_def)
qed

section \<open>A game played out\<close>

lemma foolsMate_eval:
  "(case init [] of
      Inl e \<Rightarrow> False
    | Inr s \<Rightarrow>
        (case clicks s [(6, 5), (5, 5), (1, 4), (3, 4), (6, 6), (4, 6), (0, 3), (4, 7)] of
           Inl e \<Rightarrow> False
         | Inr s1 \<Rightarrow>
             gameStatus s1 White = Inr (Checkmate, s1) \<and> gameOver s1 \<and> turn s1 = White
             \<and> length (history s1) = 4
             \<and> at (board s1) 4 7 = Some \<lparr>piece_t = Queen, piece_c = Black, moved = True\<rparr>
             \<and> movesEl s1 = [''1. f3   e5'', ''2. g4   Qh4'']))"
  by code_simp

section \<open>Claims\<close>

text \<open>
  C1. For every session, every occupied square and every move in the list that
  \<^verbatim>\<open>genLegal\<close> returns for the square: after \<^verbatim>\<open>applyMove\<close> of that move, simulated or not,
  \<^verbatim>\<open>inCheck\<close> for the mover's colour is false.
\<close>

theorem genLegal_king_safe:
  assumes "genLegal s r c = Inr (ms, s')"
    and "at (board s) r c = Some p"
    and "m \<in> set ms"
    and "applyMove s \<lparr>mfrom = (r, c), mto = (m_r m, m_c m), meta = m\<rparr> simulate = Inr s1"
  shows "\<not> inCheck s1 (piece_c p)"
proof -
  from genLegal_members[OF assms(1-3)] obtain s2 where
    s2: "applyMove s \<lparr>mfrom = (r, c), mto = (m_r m, m_c m), meta = m\<rparr> True = Inr s2"
    and safe: "\<not> inCheck s2 (piece_c p)" by blast
  from applyMove_simulate_agrees[OF assms(4) s2]
  have "inCheck s1 (piece_c p) = inCheck s2 (piece_c p)" by (intro inCheck_cong) simp_all
  with safe show ?thesis by simp
qed

theorem genLegal_king_safe_witness:
  "genLegal startPosition 6 4 = Inr ([quiet 5 4, (quiet 4 4)\<lparr>double := True\<rparr>], startPosition)
   \<and> at (board startPosition) 6 4 = Some \<lparr>piece_t = Pawn, piece_c = White, moved = False\<rparr>
   \<and> quiet 5 4 \<in> set [quiet 5 4, (quiet 4 4)\<lparr>double := True\<rparr>]
   \<and> (case applyMove startPosition \<lparr>mfrom = (6, 4), mto = (5, 4), meta = quiet 5 4\<rparr> False of
         Inl e \<Rightarrow> False
       | Inr s1 \<Rightarrow> \<not> inCheck s1 White)"
proof -
  have h1: "genLegal startPosition 6 4
              = Inr ([quiet 5 4, (quiet 4 4)\<lparr>double := True\<rparr>], startPosition)"
    by code_simp
  have h2: "at (board startPosition) 6 4 = Some \<lparr>piece_t = Pawn, piece_c = White, moved = False\<rparr>"
    by code_simp
  have h3: "quiet 5 4 \<in> set [quiet 5 4, (quiet 4 4)\<lparr>double := True\<rparr>]" by simp
  have "case applyMove startPosition \<lparr>mfrom = (6, 4), mto = (5, 4), meta = quiet 5 4\<rparr> False of
          Inl e \<Rightarrow> False | Inr s1 \<Rightarrow> True"
    by code_simp
  then obtain s1 where
    s1: "applyMove startPosition \<lparr>mfrom = (6, 4), mto = (5, 4), meta = quiet 5 4\<rparr> False = Inr s1"
    by (auto split: sum.splits)
  have s1': "applyMove startPosition
              \<lparr>mfrom = (6, 4), mto = (m_r (quiet 5 4), m_c (quiet 5 4)), meta = quiet 5 4\<rparr> False = Inr s1"
    using s1 by (simp add: quiet_def)
  from genLegal_king_safe[OF h1 h2 h3 s1'] have "\<not> inCheck s1 White" by simp
  with h1 h2 h3 s1 show ?thesis by simp
qed

text \<open>
  C8. \<^verbatim>\<open>genLegal\<close> leaves the whole session as it was: whenever it returns, the session
  it hands back equals the one it was given (board, turn, \<^verbatim>\<open>lastDouble\<close>, both capture
  bins and everything else), and on a well-formed session it does return. A simulated
  \<^verbatim>\<open>applyMove\<close> touches neither the capture bins nor the move log, and restoring the
  snapshot taken before it gives the session back.
\<close>

theorem genLegal_session_unchanged:
  "(wellFormed s \<longrightarrow> (\<exists>ms. genLegal s r c = Inr (ms, s)))
   \<and> (\<forall>ms s'. genLegal s r c = Inr (ms, s') \<longrightarrow> s' = s)
   \<and> (\<forall>m s1. applyMove s m True = Inr s1 \<longrightarrow>
          byWhite s1 = byWhite s \<and> byBlack s1 = byBlack s \<and> movesEl s1 = movesEl s
          \<and> restoreSnapshot s1 (snapshot s) = s)"
proof (intro conjI allI impI)
  assume "wellFormed s"
  then show "\<exists>ms. genLegal s r c = Inr (ms, s)" by (rule genLegal_total)
next
  fix ms s' assume "genLegal s r c = Inr (ms, s')"
  then show "s' = s" by (rule genLegal_frame)
next
  fix m s1 assume a: "applyMove s m True = Inr s1"
  then obtain b d where "s1 = s\<lparr>board := b, lastDouble := d\<rparr>"
    by (auto simp: applyMove_simulate split: option.splits sum.splits)
  then show "byWhite s1 = byWhite s" "byBlack s1 = byBlack s" "movesEl s1 = movesEl s" by simp_all
  from a show "restoreSnapshot s1 (snapshot s) = s" by (rule applyMove_simulate_restore)
qed

theorem genLegal_session_unchanged_witness:
  "wellFormed enPassantPosition
   \<and> genLegal enPassantPosition 3 4
        = Inr ([quiet 2 4, (quiet 2 3)\<lparr>cap := True, ep := True\<rparr>], enPassantPosition)
   \<and> (case applyMove enPassantPosition
              \<lparr>mfrom = (3, 4), mto = (2, 3), meta = (quiet 2 3)\<lparr>cap := True, ep := True\<rparr>\<rparr> True of
         Inl e \<Rightarrow> False
       | Inr s1 \<Rightarrow> at (board s1) 3 3 = None
                 \<and> byWhite s1 = byWhite enPassantPosition
                 \<and> byBlack s1 = byBlack enPassantPosition
                 \<and> movesEl s1 = movesEl enPassantPosition
                 \<and> restoreSnapshot s1 (snapshot enPassantPosition) = enPassantPosition)"
proof -
  let ?req = "\<lparr>mfrom = (3, 4), mto = (2, 3), meta = (quiet 2 3)\<lparr>cap := True, ep := True\<rparr>\<rparr>"
  have w: "wellFormed enPassantPosition" by code_simp
  have a: "case applyMove enPassantPosition ?req True of
             Inl e \<Rightarrow> False | Inr s1 \<Rightarrow> at (board s1) 3 3 = None"
    by code_simp
  have g: "case genLegal enPassantPosition 3 4 of
             Inl e \<Rightarrow> False
           | Inr (ms, s') \<Rightarrow> ms = [quiet 2 4, (quiet 2 3)\<lparr>cap := True, ep := True\<rparr>]"
    by code_simp
  note t = genLegal_session_unchanged[of enPassantPosition 3 4]
  from t w obtain ms where ms: "genLegal enPassantPosition 3 4 = Inr (ms, enPassantPosition)"
    by blast
  with g have g': "genLegal enPassantPosition 3 4
        = Inr ([quiet 2 4, (quiet 2 3)\<lparr>cap := True, ep := True\<rparr>], enPassantPosition)" by simp
  from a obtain s1 where s1: "applyMove enPassantPosition ?req True = Inr s1"
    and e: "at (board s1) 3 3 = None" by (auto split: sum.splits)
  from t s1 have "byWhite s1 = byWhite enPassantPosition \<and> byBlack s1 = byBlack enPassantPosition
      \<and> movesEl s1 = movesEl enPassantPosition
      \<and> restoreSnapshot s1 (snapshot enPassantPosition) = enPassantPosition" by blast
  with w g' s1 e show ?thesis by simp
qed

text \<open>
  C9. On a board with no king of a colour, \<^verbatim>\<open>inCheck\<close> for that colour is false,
  \<^verbatim>\<open>gameStatus\<close> for it is never checkmate, and when it has no legal move the status is
  stalemate.
\<close>

theorem kingless_never_checkmate:
  assumes "\<forall>r c p. at (board s) r c = Some p \<longrightarrow> \<not> (piece_t p = King \<and> piece_c p = clr)"
  shows "\<not> inCheck s clr
    \<and> (\<forall>s'. gameStatus s clr \<noteq> Inr (Checkmate, s'))
    \<and> (\<forall>s'. anyLegalMove s clr = Inr (False, s') \<longrightarrow> gameStatus s clr = Inr (Stalemate, s'))"
proof -
  from assms have kp: "kingPos s clr = None" by (simp add: kingPos_None_iff)
  then have nc: "\<not> inCheck s clr" by (simp add: inCheck.simps)
  have a: "\<And>hm s'. anyLegalMove s clr = Inr (hm, s') \<Longrightarrow> s' = s"
    unfolding anyLegalMove_def by (rule anyLoop_frame)
  have "\<And>s'. gameStatus s clr \<noteq> Inr (Checkmate, s')"
  proof
    fix s' assume g: "gameStatus s clr = Inr (Checkmate, s')"
    then obtain hm s1 where al: "anyLegalMove s clr = Inr (hm, s1)"
      and st: "(if hm then Ongoing else if inCheck s1 clr then Checkmate else Stalemate) = Checkmate"
      by (auto simp: gameStatus_def split: sum.splits)
    from a[OF al] nc st show False by (auto split: if_splits)
  qed
  moreover have "\<And>s'. anyLegalMove s clr = Inr (False, s') \<Longrightarrow> gameStatus s clr = Inr (Stalemate, s')"
  proof -
    fix s' assume al: "anyLegalMove s clr = Inr (False, s')"
    from a[OF al] nc al show "gameStatus s clr = Inr (Stalemate, s')" by (simp add: gameStatus_def)
  qed
  ultimately show ?thesis using nc by blast
qed

theorem kingless_never_checkmate_witness:
  "kingPos kinglessPosition White = None
   \<and> anyLegalMove kinglessPosition White = Inr (False, kinglessPosition)
   \<and> \<not> inCheck kinglessPosition White
   \<and> gameStatus kinglessPosition White = Inr (Stalemate, kinglessPosition)"
proof -
  have kp: "kingPos kinglessPosition White = None" by code_simp
  have al: "anyLegalMove kinglessPosition White = Inr (False, kinglessPosition)" by code_simp
  from kp have h: "\<forall>r c p. at (board kinglessPosition) r c = Some p \<longrightarrow>
                    \<not> (piece_t p = King \<and> piece_c p = White)"
    by (simp add: kingPos_None_iff)
  from kingless_never_checkmate[OF h] kp al show ?thesis by blast
qed




text \<open>
  C10, as amended. \<^verbatim>\<open>canCastle\<close> never compares the colour of the piece on the rook's
  corner with the castling colour, but with a piece of the other colour on that corner it
  returns false on every board, and no castling move to that side is generated for a king of
  the castling colour: a rook there attacks the square the king crosses, along the rank
  that the first loop found empty. The claim asks for a board on which it returns true;
  there is none.
\<close>

theorem opposing_rook_never_castles:
  assumes r: "at (board s) (homeRow clr) (rookCol sd) = Some rook" and c: "piece_c rook \<noteq> clr"
  shows "\<not> canCastle s clr sd
    \<and> (\<forall>r c fa p m. at (board s) r c = Some p \<longrightarrow> piece_c p = clr
          \<longrightarrow> m \<in> set (genPseudo s r c fa) \<longrightarrow> castle m \<noteq> Some sd)"
proof -
  have n: "\<not> canCastle s clr sd" using r c by (rule canCastle_opposing_rook)
  have "\<And>r c fa p m. at (board s) r c = Some p \<Longrightarrow> piece_c p = clr
          \<Longrightarrow> m \<in> set (genPseudo s r c fa) \<Longrightarrow> castle m \<noteq> Some sd"
  proof
    fix r c fa p m
    assume a: "at (board s) r c = Some p" and pc: "piece_c p = clr"
      and m: "m \<in> set (genPseudo s r c fa)" and cs: "castle m = Some sd"
    from genPseudo_castle_D[OF a m cs] pc n show False by simp
  qed
  with n show ?thesis by blast
qed

theorem opposing_rook_never_castles_witness:
  "at (board opposingRookPosition) (homeRow White) (rookCol Kingside)
      = Some \<lparr>piece_t = Rook, piece_c = Black, moved = False\<rparr>
   \<and> piece_c \<lparr>piece_t = Rook, piece_c = Black, moved = False\<rparr> \<noteq> White
   \<and> at (board opposingRookPosition) (homeRow White) 4
      = Some \<lparr>piece_t = King, piece_c = White, moved = False\<rparr>
   \<and> \<not> canCastle opposingRookPosition White Kingside"
proof -
  have r: "at (board opposingRookPosition) (homeRow White) (rookCol Kingside)
      = Some \<lparr>piece_t = Rook, piece_c = Black, moved = False\<rparr>" by code_simp
  have c: "piece_c \<lparr>piece_t = Rook, piece_c = Black, moved = False\<rparr> \<noteq> White" by simp
  have k: "at (board opposingRookPosition) (homeRow White) 4
      = Some \<lparr>piece_t = King, piece_c = White, moved = False\<rparr>" by code_simp
  from opposing_rook_never_castles[OF r c] r c k show ?thesis by blast
qed

theorem opposing_rook_castle_counterexample:
  "\<not> (\<exists>s clr sd king rook.
         at (board s) (homeRow clr) 4 = Some king \<and> piece_t king = King \<and> piece_c king = clr
       \<and> \<not> moved king
       \<and> at (board s) (homeRow clr) (rookCol sd) = Some rook \<and> piece_t rook = Rook
       \<and> piece_c rook = opposite clr \<and> \<not> moved rook
       \<and> canCastle s clr sd)"
proof
  assume "\<exists>s clr sd king rook.
         at (board s) (homeRow clr) 4 = Some king \<and> piece_t king = King \<and> piece_c king = clr
       \<and> \<not> moved king
       \<and> at (board s) (homeRow clr) (rookCol sd) = Some rook \<and> piece_t rook = Rook
       \<and> piece_c rook = opposite clr \<and> \<not> moved rook
       \<and> canCastle s clr sd"
  then obtain s clr sd rook where r: "at (board s) (homeRow clr) (rookCol sd) = Some rook"
    and o: "piece_c rook = opposite clr" and cc: "canCastle s clr sd" by blast
  from o have "piece_c rook \<noteq> clr" by (simp add: opposite_def split: if_splits)
  from canCastle_opposing_rook[OF r this] cc show False by simp
qed

text \<open>
  C7. In every session the page can be in, with the game not over and a square selected,
  the stored list \<^verbatim>\<open>legal\<close> is the list that \<^verbatim>\<open>genLegal\<close> returns for the selected
  square, and a click on a square that is not the destination of any move of that list is
  handled without a fault and leaves board, turn, capture bins, en-passant target, history
  stack, move log and \<^verbatim>\<open>gameOver\<close> as they were. The selection is cleared and \<^verbatim>\<open>legal\<close>
  emptied, unless the clicked square holds a piece of the side to move, in which case that
  piece becomes the selection and \<^verbatim>\<open>legal\<close> the list of its legal moves.
\<close>

theorem rejected_move_changes_nothing:
  assumes "reachable s" and "\<not> gameOver s" and "selected s = Some (sr, sc)"
    and "genLegal s sr sc = Inr (ms, s0)"
    and "find (\<lambda>m. m_r m = r \<and> m_c m = c) ms = None"
  shows "legal s = ms
     \<and> (\<exists>s'. onSquareClick s r c = Inr s'
          \<and> board s' = board s \<and> turn s' = turn s \<and> byWhite s' = byWhite s
          \<and> byBlack s' = byBlack s \<and> lastDouble s' = lastDouble s \<and> history s' = history s
          \<and> movesEl s' = movesEl s \<and> gameOver s' = gameOver s
          \<and> (if ownPiece s r c
              then selected s' = Some (r, c) \<and> genLegal s r c = Inr (legal s', s)
              else selected s' = None \<and> legal s' = []))"
proof -
  note st = reachable_settled[OF assms(1)]
  note c = settled_consistent[OF st]
  from settled_legal[OF st assms(3)] assms(4) have ms: "legal s = ms" by simp
  have "\<exists>s'. onSquareClick s r c = Inr s'
          \<and> board s' = board s \<and> turn s' = turn s \<and> byWhite s' = byWhite s
          \<and> byBlack s' = byBlack s \<and> lastDouble s' = lastDouble s \<and> history s' = history s
          \<and> movesEl s' = movesEl s \<and> gameOver s' = gameOver s
          \<and> (if ownPiece s r c
              then selected s' = Some (r, c) \<and> genLegal s r c = Inr (legal s', s)
              else selected s' = None \<and> legal s' = [])"
  proof (cases "ownPiece s r c")
    case True
    from onSquareClick_select[OF c assms(2) True] obtain s' where
      o: "onSquareClick s r c = Inr s'" by blast
    have "onSquareClick s r c = selectSquare s r c"
      unfolding onSquareClick_def Let_def ownPiece_eq using assms(2) True
      by (simp split: option.splits)
    with o have "selectSquare s r c = Inr s'" by simp
    from selectSquare_result[OF this] obtain ms' g where g0: "genLegal s r c = Inr (ms', s)"
      and r: "render s' = Inr s'"
      and e: "s' = s\<lparr>selected := Some (r, c), legal := ms', gameOver := g\<rparr>" by blast
    have "render s' = Inr (s'\<lparr>gameOver := gameOver s\<rparr>)"
      by (rule render_cong[OF _ _ _ settled_render[OF st]]) (simp_all add: e)
    with r have "s' = s'\<lparr>gameOver := gameOver s\<rparr>" by simp
    then have "gameOver s' = gameOver (s'\<lparr>gameOver := gameOver s\<rparr>)" by simp
    then have go: "gameOver s' = gameOver s" by simp
    from e have "board s' = board s" "turn s' = turn s" "byWhite s' = byWhite s"
      "byBlack s' = byBlack s" "lastDouble s' = lastDouble s" "history s' = history s"
      "movesEl s' = movesEl s" "selected s' = Some (r, c)" "legal s' = ms'" by simp_all
    with o go g0 True show ?thesis by simp
  next
    case False
    let ?d = "s\<lparr>selected := None, legal := []\<rparr>"
    have f: "find (\<lambda>m. m_r m = r \<and> m_c m = c) (legal s) = None" using assms(5) ms by simp
    have "onSquareClick s r c = render ?d"
      unfolding onSquareClick_def Let_def ownPiece_eq using assms(2,3) False f by simp
    moreover have "render ?d = Inr ?d"
      by (rule render_settled_cong[OF st]) simp_all
    ultimately have "onSquareClick s r c = Inr ?d" by simp
    with False show ?thesis by simp
  qed
  with ms show ?thesis by (rule conjI)
qed

theorem rejected_move_changes_nothing_witness:
  "reachable selectedE2 \<and> \<not> gameOver selectedE2 \<and> selected selectedE2 = Some (6, 4)
   \<and> (case genLegal selectedE2 6 4 of
        Inl e \<Rightarrow> False
      | Inr (ms, s0) \<Rightarrow> ms \<noteq> [] \<and> find (\<lambda>m. m_r m = 3 \<and> m_c m = 3) ms = None)
   \<and> \<not> ownPiece selectedE2 3 3
   \<and> legal selectedE2 \<noteq> []
   \<and> onSquareClick selectedE2 3 3 = Inr (selectedE2\<lparr>selected := None, legal := []\<rparr>)"
proof -
  have h: "\<not> gameOver selectedE2 \<and> selected selectedE2 = Some (6, 4)
     \<and> (case genLegal selectedE2 6 4 of
        Inl e \<Rightarrow> False
      | Inr (ms, s0) \<Rightarrow> ms \<noteq> [] \<and> find (\<lambda>m. m_r m = 3 \<and> m_c m = 3) ms = None)
     \<and> \<not> ownPiece selectedE2 3 3"
    by code_simp
  then have h2: "\<not> gameOver selectedE2" and h3: "selected selectedE2 = Some (6, 4)"
    and h5: "\<not> ownPiece selectedE2 3 3" by simp_all
  from h obtain ms s0 where g: "genLegal selectedE2 6 4 = Inr (ms, s0)"
    and f: "find (\<lambda>m. m_r m = 3 \<and> m_c m = 3) ms = None" and ne: "ms \<noteq> []"
    by (cases "genLegal selectedE2 6 4") auto
  note th = rejected_move_changes_nothing[OF reachable_selectedE2 h2 h3 g f]
  from th ne have l: "legal selectedE2 \<noteq> []" by simp
  from th[THEN conjunct2] h5 obtain s' where
    o: "onSquareClick selectedE2 3 3 = Inr s'"
    and e: "board s' = board selectedE2" "turn s' = turn selectedE2"
      "byWhite s' = byWhite selectedE2" "byBlack s' = byBlack selectedE2"
      "lastDouble s' = lastDouble selectedE2" "history s' = history selectedE2"
      "movesEl s' = movesEl selectedE2" "gameOver s' = gameOver selectedE2"
      "selected s' = None" "legal s' = []" by auto
  from e have "s' = selectedE2\<lparr>selected := None, legal := []\<rparr>" by (intro session.equality) simp_all
  with o reachable_selectedE2 h l show ?thesis by simp
qed

text \<open>
  C2. In every consistent session (every session the page can reach): \<^verbatim>\<open>undo\<close> with an
  empty history returns the session unchanged; with a non-empty history it returns, pops the
  newest snapshot and leaves board, turn, \<^verbatim>\<open>lastDouble\<close>, capture bins and move log equal
  to that snapshot; \<^verbatim>\<open>undo\<close> repeated as often as the history is long returns with the
  history empty; and after any click that committed a move, the newest snapshot is the one
  of the session before the click and one \<^verbatim>\<open>undo\<close> gives board, turn, \<^verbatim>\<open>lastDouble\<close>,
  capture bins, move log and history of that session back.
\<close>

theorem undo_restores_snapshot:
  assumes "consistent s"
  shows "(history s = [] \<longrightarrow> undo s = Inr s)
     \<and> (history s \<noteq> [] \<longrightarrow>
          (\<exists>s'. undo s = Inr s'
             \<and> board s' = s_board (last (history s)) \<and> turn s' = s_turn (last (history s))
             \<and> lastDouble s' = s_lastDouble (last (history s))
             \<and> byWhite s' = s_byWhite (last (history s))
             \<and> byBlack s' = s_byBlack (last (history s))
             \<and> movesEl s' = s_movesHTML (last (history s))
             \<and> history s' = butlast (history s)))
     \<and> (\<exists>s'. undos (length (history s)) s = Inr s' \<and> history s' = [])
     \<and> (\<forall>r c s1. onSquareClick s r c = Inr s1 \<longrightarrow> history s1 \<noteq> history s \<longrightarrow>
          last (history s1) = snapshot s
          \<and> (\<exists>s2. undo s1 = Inr s2
                \<and> board s2 = board s \<and> turn s2 = turn s \<and> lastDouble s2 = lastDouble s
                \<and> byWhite s2 = byWhite s \<and> byBlack s2 = byBlack s \<and> movesEl s2 = movesEl s
                \<and> history s2 = history s))"
proof (intro conjI allI impI)
  assume "history s = []" then show "undo s = Inr s" by (rule undo_empty)
next
  assume h: "history s \<noteq> []"
  from undo_consistent[OF assms h] obtain g where
    "undo s = Inr ((restoreSnapshot (s\<lparr>history := butlast (history s)\<rparr>) (last (history s)))
                              \<lparr>selected := None, legal := [], gameOver := g\<rparr>)" by blast
  then show "\<exists>s'. undo s = Inr s'
             \<and> board s' = s_board (last (history s)) \<and> turn s' = s_turn (last (history s))
             \<and> lastDouble s' = s_lastDouble (last (history s))
             \<and> byWhite s' = s_byWhite (last (history s))
             \<and> byBlack s' = s_byBlack (last (history s))
             \<and> movesEl s' = s_movesHTML (last (history s))
             \<and> history s' = butlast (history s)"
    by (simp add: restoreSnapshot_def)
next
  from undos_drain[OF assms refl] show "\<exists>s'. undos (length (history s)) s = Inr s' \<and> history s' = []"
    by blast
next
  fix r c s1 assume o: "onSquareClick s r c = Inr s1" and hn: "history s1 \<noteq> history s"
  from onSquareClick_outcome[OF assms o] hn have h1: "history s1 = history s @ [snapshot s]" by auto
  then show "last (history s1) = snapshot s" by simp
  from onSquareClick_consistent[OF assms, of r c] o have c1: "consistent s1" by auto
  have ne: "history s1 \<noteq> []" using h1 by simp
  from undo_consistent[OF c1 ne] obtain g where
    "undo s1 = Inr ((restoreSnapshot (s1\<lparr>history := butlast (history s1)\<rparr>) (last (history s1)))
                              \<lparr>selected := None, legal := [], gameOver := g\<rparr>)" by blast
  then show "\<exists>s2. undo s1 = Inr s2
                \<and> board s2 = board s \<and> turn s2 = turn s \<and> lastDouble s2 = lastDouble s
                \<and> byWhite s2 = byWhite s \<and> byBlack s2 = byBlack s \<and> movesEl s2 = movesEl s
                \<and> history s2 = history s"
    using h1 by (simp add: restoreSnapshot_def snapshot_def)
qed

theorem undo_restores_snapshot_witness:
  "consistent afterF3 \<and> history afterF3 \<noteq> []
   \<and> s_board (last (history afterF3)) = board startPosition
   \<and> (\<exists>s'. undo afterF3 = Inr s' \<and> board s' = board startPosition \<and> history s' = [])
   \<and> (\<exists>s'. undos (length (history afterF3)) afterF3 = Inr s' \<and> history s' = [])"
proof -
  have h: "consistent afterF3 \<and> history afterF3 \<noteq> []
     \<and> s_board (last (history afterF3)) = board startPosition
     \<and> butlast (history afterF3) = []"
    by code_simp
  then have c: "consistent afterF3" by simp
  from undo_restores_snapshot[OF c] h show ?thesis by auto
qed

text \<open>
  C5. \<^verbatim>\<open>applyMove\<close> leaves \<^verbatim>\<open>lastDouble\<close> non-null exactly when the piece moved is a pawn and
  the move is marked \<^verbatim>\<open>double\<close> (then it is the destination with the pawn's direction);
  every other move sets it to \<^verbatim>\<open>null\<close>. The generator marks a move \<^verbatim>\<open>double\<close> only for
  a pawn going two rows from its start row, and produces an en-passant capture only while
  \<^verbatim>\<open>lastDouble\<close> is non-null, on the pawn's row and one column away. In a consistent
  session a click that commits a move leaves \<^verbatim>\<open>lastDouble\<close> as that move determines, and
  a click that commits none leaves it as it was.
\<close>

theorem enPassant_target_lifetime:
  "(\<forall>m sim s' p. applyMove s m sim = Inr s' \<longrightarrow>
        at (board s) (fst (mfrom m)) (snd (mfrom m)) = Some p \<longrightarrow>
        lastDouble s' =
          (if piece_t p = Pawn \<and> double (meta m)
           then Some \<lparr>ld_r = fst (mto m), ld_c = snd (mto m), ld_dir = pawnDir (piece_c p)\<rparr>
           else None))
   \<and> (\<forall>r c fa x. x \<in> set (genPseudo s r c fa) \<longrightarrow> ep x \<longrightarrow>
        (\<exists>l. lastDouble s = Some l \<and> ld_r l = r \<and> \<bar>ld_c l - c\<bar> = 1 \<and> m_c x = ld_c l))
   \<and> (\<forall>r c fa x p. at (board s) r c = Some p \<longrightarrow> x \<in> set (genPseudo s r c fa) \<longrightarrow> double x \<longrightarrow>
        piece_t p = Pawn \<and> r = pawnStart (piece_c p) \<and> m_c x = c
        \<and> m_r x = r + 2 * pawnDir (piece_c p))
   \<and> (consistent s \<longrightarrow>
        (\<forall>r c s'. onSquareClick s r c = Inr s' \<longrightarrow>
           (if history s' = history s then lastDouble s' = lastDouble s
            else \<exists>sel mv p. selected s = Some sel \<and> at (board s) (fst sel) (snd sel) = Some p
                   \<and> find (\<lambda>m. m_r m = r \<and> m_c m = c) (legal s) = Some mv
                   \<and> lastDouble s' =
                       (if piece_t p = Pawn \<and> double mv
                        then Some \<lparr>ld_r = r, ld_c = c, ld_dir = pawnDir (piece_c p)\<rparr>
                        else None))))"
proof (intro conjI allI impI)
  fix m sim s' p
  assume a: "applyMove s m sim = Inr s'" and p: "at (board s) (fst (mfrom m)) (snd (mfrom m)) = Some p"
  from applyMove_fields[OF a] p have "lastDouble s' = newTarget p m" by auto
  then show "lastDouble s' =
          (if piece_t p = Pawn \<and> double (meta m)
           then Some \<lparr>ld_r = fst (mto m), ld_c = snd (mto m), ld_dir = pawnDir (piece_c p)\<rparr>
           else None)"
    by (simp add: newTarget_def pawnDir_def)
next
  fix r c fa x assume "x \<in> set (genPseudo s r c fa)" "ep x"
  then show "\<exists>l. lastDouble s = Some l \<and> ld_r l = r \<and> \<bar>ld_c l - c\<bar> = 1 \<and> m_c x = ld_c l"
    by (rule genPseudo_ep)
next
  fix r c fa x p
  assume "at (board s) r c = Some p" "x \<in> set (genPseudo s r c fa)" "double x"
  from genPseudo_double[OF this]
  show "piece_t p = Pawn" "r = pawnStart (piece_c p)" "m_c x = c"
    "m_r x = r + 2 * pawnDir (piece_c p)" by simp_all
next
  fix r c s' assume c: "consistent s" and o: "onSquareClick s r c = Inr s'"
  let ?goal = "if history s' = history s then lastDouble s' = lastDouble s
        else \<exists>sel mv p. selected s = Some sel \<and> at (board s) (fst sel) (snd sel) = Some p
               \<and> find (\<lambda>m. m_r m = r \<and> m_c m = c) (legal s) = Some mv
               \<and> lastDouble s' =
                   (if piece_t p = Pawn \<and> double mv
                    then Some \<lparr>ld_r = r, ld_c = c, ld_dir = pawnDir (piece_c p)\<rparr>
                    else None)"
  from onSquareClick_outcome[OF c o] show ?goal
  proof
    assume "history s' = history s \<and> board s' = board s \<and> turn s' = turn s
          \<and> lastDouble s' = lastDouble s \<and> byWhite s' = byWhite s \<and> byBlack s' = byBlack s
          \<and> movesEl s' = movesEl s"
    then show ?goal by simp
  next
    assume "\<exists>sr sc mv p. \<not> gameOver s \<and> selected s = Some (sr, sc) \<and> \<not> ownPiece s r c
            \<and> find (\<lambda>m. m_r m = r \<and> m_c m = c) (legal s) = Some mv
            \<and> at (board s) sr sc = Some p
            \<and> history s' = history s @ [snapshot s]
            \<and> lastDouble s' = newTarget p \<lparr>mfrom = (sr, sc), mto = (r, c), meta = mv\<rparr>
            \<and> turn s' = opposite (turn s)"
    then obtain sr sc mv p where sel: "selected s = Some (sr, sc)"
      and f: "find (\<lambda>m. m_r m = r \<and> m_c m = c) (legal s) = Some mv"
      and a: "at (board s) sr sc = Some p" and h: "history s' = history s @ [snapshot s]"
      and l: "lastDouble s' = newTarget p \<lparr>mfrom = (sr, sc), mto = (r, c), meta = mv\<rparr>" by blast
    have l': "lastDouble s' = (if piece_t p = Pawn \<and> double mv
                    then Some \<lparr>ld_r = r, ld_c = c, ld_dir = pawnDir (piece_c p)\<rparr>
                    else None)"
      using l by (simp add: newTarget_def pawnDir_def)
    have "\<exists>sel mv p. selected s = Some sel \<and> at (board s) (fst sel) (snd sel) = Some p
               \<and> find (\<lambda>m. m_r m = r \<and> m_c m = c) (legal s) = Some mv
               \<and> lastDouble s' =
                   (if piece_t p = Pawn \<and> double mv
                    then Some \<lparr>ld_r = r, ld_c = c, ld_dir = pawnDir (piece_c p)\<rparr>
                    else None)"
      using sel f a l' by (intro exI[of _ "(sr, sc)"] exI[of _ mv] exI[of _ p]) simp
    moreover have "history s' \<noteq> history s" using h by simp
    ultimately show ?goal by simp
  qed
qed


theorem enPassant_target_lifetime_witness:
  "consistent selectedE2
   \<and> (\<exists>s'. onSquareClick selectedE2 4 4 = Inr s' \<and> history s' \<noteq> history selectedE2
          \<and> lastDouble s' = Some \<lparr>ld_r = 4, ld_c = 4, ld_dir = -1\<rparr>)
   \<and> (\<exists>s'. onSquareClick selectedE2 5 4 = Inr s' \<and> history s' \<noteq> history selectedE2
          \<and> lastDouble s' = None)
   \<and> (quiet 2 3)\<lparr>cap := True, ep := True\<rparr> \<in> set (genPseudo enPassantPosition 3 4 False)
   \<and> (\<exists>l. lastDouble enPassantPosition = Some l \<and> ld_r l = 3 \<and> ld_c l = 3)"
proof -
  have h: "consistent selectedE2
     \<and> selected selectedE2 = Some (6, 4)
     \<and> at (board selectedE2) 6 4 = Some \<lparr>piece_t = Pawn, piece_c = White, moved = False\<rparr>
     \<and> find (\<lambda>m. m_r m = 4 \<and> m_c m = 4) (legal selectedE2) = Some ((quiet 4 4)\<lparr>double := True\<rparr>)
     \<and> find (\<lambda>m. m_r m = 5 \<and> m_c m = 4) (legal selectedE2) = Some (quiet 5 4)"
    by code_simp
  have k: "(case onSquareClick selectedE2 4 4 of Inl e \<Rightarrow> False
           | Inr s' \<Rightarrow> history s' \<noteq> history selectedE2)
     \<and> (case onSquareClick selectedE2 5 4 of Inl e \<Rightarrow> False
           | Inr s' \<Rightarrow> history s' \<noteq> history selectedE2)"
    by code_simp
  have e: "(quiet 2 3)\<lparr>cap := True, ep := True\<rparr> \<in> set (genPseudo enPassantPosition 3 4 False)"
    by code_simp
  from h have c: "consistent selectedE2" by simp
  have t4: "\<And>r c s'. onSquareClick selectedE2 r c = Inr s' \<Longrightarrow> history s' \<noteq> history selectedE2 \<Longrightarrow>
            \<exists>sel mv p. selected selectedE2 = Some sel
                   \<and> at (board selectedE2) (fst sel) (snd sel) = Some p
                   \<and> find (\<lambda>m. m_r m = r \<and> m_c m = c) (legal selectedE2) = Some mv
                   \<and> lastDouble s' =
                       (if piece_t p = Pawn \<and> double mv
                        then Some \<lparr>ld_r = r, ld_c = c, ld_dir = pawnDir (piece_c p)\<rparr>
                        else None)"
  proof -
    fix r c s'
    assume o: "onSquareClick selectedE2 r c = Inr s'" and n: "history s' \<noteq> history selectedE2"
    from enPassant_target_lifetime[of selectedE2]
    have "consistent selectedE2 \<longrightarrow>
        (\<forall>r c s'. onSquareClick selectedE2 r c = Inr s' \<longrightarrow>
           (if history s' = history selectedE2 then lastDouble s' = lastDouble selectedE2
            else \<exists>sel mv p. selected selectedE2 = Some sel
                   \<and> at (board selectedE2) (fst sel) (snd sel) = Some p
                   \<and> find (\<lambda>m. m_r m = r \<and> m_c m = c) (legal selectedE2) = Some mv
                   \<and> lastDouble s' =
                       (if piece_t p = Pawn \<and> double mv
                        then Some \<lparr>ld_r = r, ld_c = c, ld_dir = pawnDir (piece_c p)\<rparr>
                        else None)))" by (elim conjE)
    with c o have "if history s' = history selectedE2 then lastDouble s' = lastDouble selectedE2
            else \<exists>sel mv p. selected selectedE2 = Some sel
                   \<and> at (board selectedE2) (fst sel) (snd sel) = Some p
                   \<and> find (\<lambda>m. m_r m = r \<and> m_c m = c) (legal selectedE2) = Some mv
                   \<and> lastDouble s' =
                       (if piece_t p = Pawn \<and> double mv
                        then Some \<lparr>ld_r = r, ld_c = c, ld_dir = pawnDir (piece_c p)\<rparr>
                        else None)" by blast
    with n show "\<exists>sel mv p. selected selectedE2 = Some sel
                   \<and> at (board selectedE2) (fst sel) (snd sel) = Some p
                   \<and> find (\<lambda>m. m_r m = r \<and> m_c m = c) (legal selectedE2) = Some mv
                   \<and> lastDouble s' =
                       (if piece_t p = Pawn \<and> double mv
                        then Some \<lparr>ld_r = r, ld_c = c, ld_dir = pawnDir (piece_c p)\<rparr>
                        else None)" by (simp only: if_False)
  qed
  from k obtain s1 where s1: "onSquareClick selectedE2 4 4 = Inr s1"
    and n1: "history s1 \<noteq> history selectedE2" by (auto split: sum.splits)
  from k obtain s2 where s2: "onSquareClick selectedE2 5 4 = Inr s2"
    and n2: "history s2 \<noteq> history selectedE2" by (auto split: sum.splits)
  from t4[OF s1 n1] h have l1: "lastDouble s1 = Some \<lparr>ld_r = 4, ld_c = 4, ld_dir = -1\<rparr>"
    by (auto simp: pawnDir_def quiet_def)
  from t4[OF s2 n2] h have l2: "lastDouble s2 = None"
    by (auto simp: pawnDir_def quiet_def)
  have t2: "\<And>r c fa x. x \<in> set (genPseudo enPassantPosition r c fa) \<Longrightarrow> ep x \<Longrightarrow>
        (\<exists>l. lastDouble enPassantPosition = Some l \<and> ld_r l = r \<and> \<bar>ld_c l - c\<bar> = 1 \<and> m_c x = ld_c l)"
    using enPassant_target_lifetime[of enPassantPosition] by blast
  from t2[OF e]
  have "\<exists>l. lastDouble enPassantPosition = Some l \<and> ld_r l = 3 \<and> ld_c l = 3"
    by (auto simp: quiet_def)
  with c s1 n1 l1 s2 n2 l2 e show ?thesis by blast
qed

text \<open>
  C6. From a consistent session in which every king of a colour has its \<^verbatim>\<open>moved\<close> flag
  set, or in which the king's home square or a rook's corner of that colour holds no
  never-moved piece, every sequence of clicks returns, and in the session it leads to
  \<^verbatim>\<open>canCastle\<close> for that colour and side is false and no castling move to that side is
  generated for a piece of that colour. In the example below the white king goes e1-f1 and
  later back to e1.
\<close>

theorem castling_right_never_returns:
  assumes c: "consistent s"
    and lost: "(\<forall>r c p. at (board s) r c = Some p \<longrightarrow> piece_t p = King \<longrightarrow> piece_c p = clr \<longrightarrow> moved p)
         \<or> stale (at (board s) (homeRow clr) 4)
         \<or> stale (at (board s) (homeRow clr) (rookCol sd))"
  shows "\<exists>s'. clicks s es = Inr s' \<and> \<not> canCastle s' clr sd
          \<and> (\<forall>r c fa p m. at (board s') r c = Some p \<longrightarrow> piece_c p = clr
                \<longrightarrow> m \<in> set (genPseudo s' r c fa) \<longrightarrow> castle m \<noteq> Some sd)"
proof -
  from clicks_consistent[OF c, of es] obtain s' where k: "clicks s es = Inr s'"
    and c': "consistent s'" and e: "evolves (board s) (board s')" by blast
  have n: "\<not> canCastle s' clr sd"
  proof
    assume cc: "canCastle s' clr sd"
    from canCastle_D[OF cc] obtain rook king where
      r': "at (board s') (homeRow clr) (rookCol sd) = Some rook" and ur: "\<not> moved rook"
      and k': "at (board s') (homeRow clr) 4 = Some king" and tk: "piece_t king = King"
      and uk: "\<not> moved king" by blast
    from c' have kh: "kingsHome (board s')" by (simp add: consistent_def wellFormed_def)
    from kingsHome_D[OF kh k' tk uk] have "piece_c king = clr" by (auto dest: homeRow_inj)
    moreover from stale_at_evolves[OF e k' uk] have k0: "at (board s) (homeRow clr) 4 = Some king" .
    moreover from stale_at_evolves[OF e r' ur] have "at (board s) (homeRow clr) (rookCol sd) = Some rook" .
    ultimately show False using lost tk uk ur by (auto simp: stale_def)
  qed
  have "\<And>r c fa p m. at (board s') r c = Some p \<Longrightarrow> piece_c p = clr
          \<Longrightarrow> m \<in> set (genPseudo s' r c fa) \<Longrightarrow> castle m \<noteq> Some sd"
  proof
    fix r c fa p m
    assume a: "at (board s') r c = Some p" and pc: "piece_c p = clr"
      and m: "m \<in> set (genPseudo s' r c fa)" and cs: "castle m = Some sd"
    from genPseudo_castle_D[OF a m cs] pc n show False by simp
  qed
  with k n show ?thesis by blast
qed

theorem castling_right_never_returns_witness:
  "consistent kingMovedPosition
   \<and> stale (at (board kingMovedPosition) (homeRow White) 4)
   \<and> (case clicks kingMovedPosition [(0, 4), (0, 3), (7, 5), (7, 4)] of
         Inl e \<Rightarrow> False
       | Inr s' \<Rightarrow> at (board s') 7 4 = Some \<lparr>piece_t = King, piece_c = White, moved = True\<rparr>
                 \<and> at (board s') 7 7 = Some \<lparr>piece_t = Rook, piece_c = White, moved = False\<rparr>
                 \<and> \<not> canCastle s' White Kingside)"
proof -
  have h: "consistent kingMovedPosition \<and> stale (at (board kingMovedPosition) (homeRow White) 4)"
    by code_simp
  have b: "(case clicks kingMovedPosition [(0, 4), (0, 3), (7, 5), (7, 4)] of
         Inl e \<Rightarrow> False
       | Inr s' \<Rightarrow> at (board s') 7 4 = Some \<lparr>piece_t = King, piece_c = White, moved = True\<rparr>
                 \<and> at (board s') 7 7 = Some \<lparr>piece_t = Rook, piece_c = White, moved = False\<rparr>)"
    by code_simp
  from h have c: "consistent kingMovedPosition"
    and l: "(\<forall>r c p. at (board kingMovedPosition) r c = Some p \<longrightarrow> piece_t p = King
                \<longrightarrow> piece_c p = White \<longrightarrow> moved p)
         \<or> stale (at (board kingMovedPosition) (homeRow White) 4)
         \<or> stale (at (board kingMovedPosition) (homeRow White) (rookCol Kingside))" by simp_all
  from castling_right_never_returns[OF c l, of "[(0, 4), (0, 3), (7, 5), (7, 4)]"] h b
  show ?thesis by (auto split: sum.splits)
qed

text \<open>
  C4. From the position \<^verbatim>\<open>init\<close> sets up (on a page with an empty move list), the clicks
  f2, f3, e7, e5, g2, g4, d8, h4 are all handled without a fault, each pair commits its
  move (the history holds four snapshots and the black queen stands on h4), and then
  \<^verbatim>\<open>gameStatus\<close> for White is checkmate.
\<close>

theorem fools_mate_is_checkmate:
  "\<exists>s s1. init [] = Inr s
     \<and> clicks s [(6, 5), (5, 5), (1, 4), (3, 4), (6, 6), (4, 6), (0, 3), (4, 7)] = Inr s1
     \<and> length (history s1) = 4
     \<and> at (board s1) 4 7 = Some \<lparr>piece_t = Queen, piece_c = Black, moved = True\<rparr>
     \<and> turn s1 = White
     \<and> gameStatus s1 White = Inr (Checkmate, s1)"
proof -
  let ?es = "[(6, 5), (5, 5), (1, 4), (3, 4), (6, 6), (4, 6), (0, 3), (4, 7)] :: (int \<times> int) list"
  from foolsMate_eval obtain s where s: "init [] = Inr s"
    and k: "case clicks s ?es of
           Inl e \<Rightarrow> False
         | Inr s1 \<Rightarrow>
             gameStatus s1 White = Inr (Checkmate, s1) \<and> gameOver s1 \<and> turn s1 = White
             \<and> length (history s1) = 4
             \<and> at (board s1) 4 7 = Some \<lparr>piece_t = Queen, piece_c = Black, moved = True\<rparr>
             \<and> movesEl s1 = [''1. f3   e5'', ''2. g4   Qh4'']"
    by (cases "init []") (simp_all del: clicks.simps)
  from k obtain s1 where "clicks s ?es = Inr s1"
    and "gameStatus s1 White = Inr (Checkmate, s1) \<and> gameOver s1 \<and> turn s1 = White
             \<and> length (history s1) = 4
             \<and> at (board s1) 4 7 = Some \<lparr>piece_t = Queen, piece_c = Black, moved = True\<rparr>"
    by (cases "clicks s ?es") (simp_all del: clicks.simps)
  with s show ?thesis by blast
qed

end
